theory Spec2Isabelle
  imports Main "HOL-Library.Char_ord" "HOL-Library.List_Lexorder" "HOL-Library.Multiset"
begin

section \<open>JavaScript strings and arrays\<close>

text \<open>
  Strings are lists of 8-bit characters (the code points up to U+00FF); the key notation
  handled by the scanner is ASCII. The library functions of String and Array that the
  source calls are written out here with the behaviour they have on such strings.
\<close>

text \<open>The characters that \<^verbatim>\<open>trim\<close> strips and that \<^verbatim>\<open>\s\<close> matches: TAB, LF, VT, FF, CR, SP, NBSP.\<close>

definition isWhiteSpace :: "char \<Rightarrow> bool" where
  "isWhiteSpace c = (c \<in> set [CHR 0x09, CHR 0x0A, CHR 0x0B, CHR 0x0C, CHR 0x0D, CHR 0x20, CHR 0xA0])"

definition upperChars :: "char list" where
  "upperChars = ''ABCDEFGHIJKLMNOPQRSTUVWXYZ'' @
     [CHR 0xC0, CHR 0xC1, CHR 0xC2, CHR 0xC3, CHR 0xC4, CHR 0xC5, CHR 0xC6, CHR 0xC7,
      CHR 0xC8, CHR 0xC9, CHR 0xCA, CHR 0xCB, CHR 0xCC, CHR 0xCD, CHR 0xCE, CHR 0xCF,
      CHR 0xD0, CHR 0xD1, CHR 0xD2, CHR 0xD3, CHR 0xD4, CHR 0xD5, CHR 0xD6,
      CHR 0xD8, CHR 0xD9, CHR 0xDA, CHR 0xDB, CHR 0xDC, CHR 0xDD, CHR 0xDE]"

definition lowerChars :: "char list" where
  "lowerChars = ''abcdefghijklmnopqrstuvwxyz'' @
     [CHR 0xE0, CHR 0xE1, CHR 0xE2, CHR 0xE3, CHR 0xE4, CHR 0xE5, CHR 0xE6, CHR 0xE7,
      CHR 0xE8, CHR 0xE9, CHR 0xEA, CHR 0xEB, CHR 0xEC, CHR 0xED, CHR 0xEE, CHR 0xEF,
      CHR 0xF0, CHR 0xF1, CHR 0xF2, CHR 0xF3, CHR 0xF4, CHR 0xF5, CHR 0xF6,
      CHR 0xF8, CHR 0xF9, CHR 0xFA, CHR 0xFB, CHR 0xFC, CHR 0xFD, CHR 0xFE]"

definition lowerChar :: "char \<Rightarrow> char" where
  "lowerChar c = (case map_of (zip upperChars lowerChars) c of Some d \<Rightarrow> d | None \<Rightarrow> c)"

definition toLowerCase :: "string \<Rightarrow> string" where
  "toLowerCase s = map lowerChar s"

definition trimStart :: "string \<Rightarrow> string" where
  "trimStart s = dropWhile isWhiteSpace s"

definition trimEnd :: "string \<Rightarrow> string" where
  "trimEnd s = rev (dropWhile isWhiteSpace (rev s))"

definition trim :: "string \<Rightarrow> string" where
  "trim s = trimEnd (trimStart s)"

text \<open>
  \<^verbatim>\<open>s.split(sep)\<close> for a separator that matches single characters: the pieces between the
  separators, in order; the empty string gives one empty piece.
\<close>

fun cons_head :: "char \<Rightarrow> string list \<Rightarrow> string list" where
  "cons_head x [] = [[x]]"
| "cons_head x (p # ps) = (x # p) # ps"

fun split_where :: "(char \<Rightarrow> bool) \<Rightarrow> string \<Rightarrow> string list" where
  "split_where sep [] = [[]]"
| "split_where sep (x # xs) =
     (if sep x then [] # split_where sep xs else cons_head x (split_where sep xs))"

definition split_on :: "char \<Rightarrow> string \<Rightarrow> string list" where
  "split_on c s = split_where (\<lambda>x. x = c) s"

text \<open>\<^verbatim>\<open>parts.join(sep)\<close>.\<close>

fun join :: "string \<Rightarrow> string list \<Rightarrow> string" where
  "join sep [] = []"
| "join sep [p] = p"
| "join sep (p # q # ps) = p @ sep @ join sep (q # ps)"

text \<open>\<^verbatim>\<open>xs.indexOf(x)\<close>: the first position of \<open>x\<close>, or -1.\<close>

fun index_from :: "int \<Rightarrow> 'a list \<Rightarrow> 'a \<Rightarrow> int" where
  "index_from i [] x = -1"
| "index_from i (y # ys) x = (if y = x then i else index_from (i + 1) ys x)"

definition indexOf :: "'a list \<Rightarrow> 'a \<Rightarrow> int" where
  "indexOf xs x = index_from 0 xs x"

text \<open>
  \<^verbatim>\<open>xs.sort(compare)\<close>: the stable sort of the array by the comparator, where
  \<open>compare a b \<le> 0\<close> keeps \<open>a\<close> before \<open>b\<close>.
\<close>

fun insert_by :: "('a \<Rightarrow> 'a \<Rightarrow> int) \<Rightarrow> 'a \<Rightarrow> 'a list \<Rightarrow> 'a list" where
  "insert_by compare x [] = [x]"
| "insert_by compare x (y # ys) =
     (if compare x y \<le> 0 then x # y # ys else y # insert_by compare x ys)"

definition array_sort :: "('a \<Rightarrow> 'a \<Rightarrow> int) \<Rightarrow> 'a list \<Rightarrow> 'a list" where
  "array_sort compare xs = foldr (insert_by compare) xs []"

section \<open>KeybindingScanner: key normalization\<close>

definition modifiers :: "string list" where
  "modifiers = [''ctrl'', ''cmd'', ''alt'', ''shift'', ''meta'', ''win'',
                ''command'', ''option'', ''control'']"

definition isModifierKey :: "string \<Rightarrow> bool" where
  "isModifierKey key = (toLowerCase key \<in> set modifiers)"

definition modifierOrder :: "string list" where
  "modifierOrder = [''ctrl'', ''cmd'', ''alt'', ''shift'', ''meta'', ''win'']"

definition compareModifiers :: "string \<Rightarrow> string \<Rightarrow> int" where
  "compareModifiers a b = indexOf modifierOrder a - indexOf modifierOrder b"

text \<open>The loop over the parts: the modifiers in order, and the last part that is no modifier.\<close>

fun separateParts :: "string list \<Rightarrow> string list \<times> string \<Rightarrow> string list \<times> string" where
  "separateParts [] (mods, mainKey) = (mods, mainKey)"
| "separateParts (part # parts) (mods, mainKey) =
     (if isModifierKey part then separateParts parts (mods @ [part], mainKey)
      else separateParts parts (mods, part))"

definition normalizeSingleKey :: "string \<Rightarrow> string" where
  "normalizeSingleKey key =
     (let normalized = trim (toLowerCase key);
          parts = map trim (split_on CHR ''+'' normalized)
      in if length parts = 1 then normalized
         else
           (case separateParts parts ([], []) of
              (mods, mainKey) \<Rightarrow>
                (let sorted = array_sort compareModifiers mods
                 in if mainKey \<noteq> [] then join ''+'' (sorted @ [mainKey])
                    else join ''+'' sorted)))"

definition normalizeKey :: "string \<Rightarrow> string" where
  "normalizeKey key =
     (let normalized = trim (toLowerCase key)
      in if CHR '' '' \<in> set normalized
         then join '' '' (map normalizeSingleKey (split_on CHR '' '' normalized))
         else normalizeSingleKey normalized)"

section \<open>Data model (types.ts)\<close>

record KeybindingInfo =
  key :: string
  command :: string
  "when" :: "string option"
  extensionId :: string
  extensionName :: string

record ConflictGroup =
  group_key :: string
  bindings :: "KeybindingInfo list"

section \<open>KeybindingScanner: collecting the bindings\<close>

text \<open>
  A \<^verbatim>\<open>key\<close>, \<^verbatim>\<open>mac\<close>, \<^verbatim>\<open>linux\<close> or \<^verbatim>\<open>win\<close> field of a manifest entry holds one string or an
  array of strings. An entry of \<^verbatim>\<open>contributes.keybindings\<close> and the part of an extension
  that the scanner reads:
\<close>

datatype key_field = OneKey string | KeyArray "string list"

record keybinding_contribution =
  kb_command :: string
  kb_key :: "key_field option"
  kb_mac :: "key_field option"
  kb_linux :: "key_field option"
  kb_win :: "key_field option"
  kb_when :: "string option"

record extension =
  ext_id :: string
  ext_displayName :: "string option"
  ext_name :: "string option"
  ext_keybindings :: "keybinding_contribution list option"

text \<open>\<^verbatim>\<open>process.platform\<close>: \<^verbatim>\<open>'darwin'\<close>, \<^verbatim>\<open>'linux'\<close>, \<^verbatim>\<open>'win32'\<close> or another system.\<close>

datatype platform = Darwin | Linux | Win32 | OtherPlatform

text \<open>A field is truthy when it is a non-empty string or an array.\<close>

fun truthy_field :: "key_field option \<Rightarrow> bool" where
  "truthy_field None = False"
| "truthy_field (Some (OneKey k)) = (k \<noteq> [])"
| "truthy_field (Some (KeyArray ks)) = True"

text \<open>\<^verbatim>\<open>(Array.isArray(f) ? f : [f]).filter(k => k)\<close>\<close>

fun keysOf :: "key_field option \<Rightarrow> string list" where
  "keysOf None = []"
| "keysOf (Some (OneKey k)) = filter (\<lambda>k. k \<noteq> []) [k]"
| "keysOf (Some (KeyArray ks)) = filter (\<lambda>k. k \<noteq> []) ks"

definition keysToProcess :: "platform \<Rightarrow> keybinding_contribution \<Rightarrow> string list" where
  "keysToProcess pf kb =
     (if pf = Darwin \<and> truthy_field (kb_mac kb) then keysOf (kb_mac kb)
      else if pf = Linux \<and> truthy_field (kb_linux kb) then keysOf (kb_linux kb)
      else if pf = Win32 \<and> truthy_field (kb_win kb) then keysOf (kb_win kb)
      else if truthy_field (kb_key kb) then keysOf (kb_key kb)
      else [])"

text \<open>\<^verbatim>\<open>packageJSON.displayName || packageJSON.name || extensionId\<close>\<close>

definition extensionNameOf :: "extension \<Rightarrow> string" where
  "extensionNameOf ext =
     (case ext_displayName ext of
        Some d \<Rightarrow> (if d \<noteq> [] then d
                   else (case ext_name ext of Some n \<Rightarrow> (if n \<noteq> [] then n else ext_id ext)
                                            | None \<Rightarrow> ext_id ext))
      | None \<Rightarrow> (case ext_name ext of Some n \<Rightarrow> (if n \<noteq> [] then n else ext_id ext)
                                     | None \<Rightarrow> ext_id ext))"

definition bindingsOfEntry :: "platform \<Rightarrow> extension \<Rightarrow> keybinding_contribution \<Rightarrow> KeybindingInfo list" where
  "bindingsOfEntry pf ext kb =
     map (\<lambda>k. \<lparr>key = normalizeKey k, command = kb_command kb, when = kb_when kb,
               extensionId = ext_id ext, extensionName = extensionNameOf ext\<rparr>)
         (keysToProcess pf kb)"

definition collectAllKeybindings :: "platform \<Rightarrow> extension list \<Rightarrow> KeybindingInfo list" where
  "collectAllKeybindings pf exts =
     concat (map (\<lambda>ext. case ext_keybindings ext of
                           None \<Rightarrow> []
                         | Some kbs \<Rightarrow> concat (map (bindingsOfEntry pf ext) kbs)) exts)"

section \<open>The user's keybindings.json\<close>

text \<open>
  An entry of the user's override list, and the states of the file that the readers
  distinguish: no file, a file with only white space, a text that does not parse, and
  a parsed array of entries.
\<close>

record user_keybinding =
  uk_key :: "string option"
  uk_command :: "string option"
  uk_when :: "string option"

datatype keybindings_file = Missing | Blank | Malformed | Entries "user_keybinding list"

text \<open>The body of the loop of \<^verbatim>\<open>getUserDisabledCommands\<close>.\<close>

definition addDisabled :: "string set \<Rightarrow> user_keybinding \<Rightarrow> string set" where
  "addDisabled disabledCommands kb =
     (case uk_command kb of
        None \<Rightarrow> disabledCommands
      | Some c \<Rightarrow>
          if c \<noteq> [] \<and> hd c = CHR ''-'' then insert (tl c) disabledCommands
          else if c \<noteq> [] \<and> (uk_key kb = None \<or> uk_key kb = Some []) then insert c disabledCommands
          else disabledCommands)"

definition getUserDisabledCommands :: "keybindings_file \<Rightarrow> string set" where
  "getUserDisabledCommands file =
     (case file of Entries userKeybindings \<Rightarrow> foldl addDisabled {} userKeybindings | _ \<Rightarrow> {})"

section \<open>KeybindingScanner: finding the conflicts\<close>

text \<open>
  \<^verbatim>\<open>groupedByKey\<close> is a Map: its entries are kept in the order of first insertion, and a
  binding is pushed onto the array of its key.
\<close>

fun pushBinding :: "KeybindingInfo \<Rightarrow> (string \<times> KeybindingInfo list) list \<Rightarrow> (string \<times> KeybindingInfo list) list" where
  "pushBinding b [] = [(key b, [b])]"
| "pushBinding b ((k, bs) # m) =
     (if k = key b then (k, bs @ [b]) # m else (k, bs) # pushBinding b m)"

definition groupByKey :: "KeybindingInfo list \<Rightarrow> string set \<Rightarrow> (string \<times> KeybindingInfo list) list" where
  "groupByKey bs userDisabledCommands =
     foldl (\<lambda>m b. if command b \<in> userDisabledCommands then m else pushBinding b m) [] bs"

text \<open>More than one binding, and more than one element in the Set of their extension ids.\<close>

definition isConflict :: "KeybindingInfo list \<Rightarrow> bool" where
  "isConflict bindingsForKey =
     (length bindingsForKey > 1 \<and> length (remdups (map extensionId bindingsForKey)) > 1)"

text \<open>
  The groups are sorted with \<^verbatim>\<open>a.key.localeCompare(b.key)\<close>, the comparison of the host's
  locale; it is a parameter of the model.
\<close>

definition findConflicts ::
  "(string \<Rightarrow> string \<Rightarrow> int) \<Rightarrow> KeybindingInfo list \<Rightarrow> string set \<Rightarrow> ConflictGroup list" where
  "findConflicts localeCompare bs userDisabledCommands =
     (let groupedByKey = groupByKey bs userDisabledCommands;
          conflicts = map (\<lambda>(k, bindingsForKey). \<lparr>group_key = k, bindings = bindingsForKey\<rparr>)
                          (filter (\<lambda>(k, bindingsForKey). isConflict bindingsForKey) groupedByKey)
      in array_sort (\<lambda>a b. localeCompare (group_key a) (group_key b)) conflicts)"

text \<open>
  The scanner object holds the bindings of its last scan. What a scan reads from its host:
  the installed extensions, the platform, the user's keybindings.json and the locale's
  string comparison.
\<close>

record scanner =
  allBindings :: "KeybindingInfo list"

record host =
  extensions :: "extension list"
  host_platform :: platform
  keybindingsFile :: keybindings_file
  localeCompare :: "string \<Rightarrow> string \<Rightarrow> int"

definition scanConflicts :: "host \<Rightarrow> scanner \<Rightarrow> ConflictGroup list \<times> scanner" where
  "scanConflicts h this =
     (let this' = this\<lparr>allBindings := collectAllKeybindings (host_platform h) (extensions h)\<rparr>;
          userDisabledCommands = getUserDisabledCommands (keybindingsFile h);
          conflicts = findConflicts (localeCompare h) (allBindings this') userDisabledCommands
      in (conflicts, this'))"

definition getAllBindings :: "scanner \<Rightarrow> KeybindingInfo list" where
  "getAllBindings this = allBindings this"

section \<open>ConflictPresenter: validating a replacement key\<close>

text \<open>The messages that \<^verbatim>\<open>validateKeybinding\<close> returns, with the values they quote.\<close>

datatype validation_message =
    EnterKeyCombination
  | InvalidCharacters
  | NotAValidKey string
  | InvalidFormat
  | OnlyModifiers
  | ConflictsWith string string

definition isLowerLetter :: "char \<Rightarrow> bool" where
  "isLowerLetter c = (c \<in> set ''abcdefghijklmnopqrstuvwxyz'')"

definition isDigit :: "char \<Rightarrow> bool" where
  "isDigit c = (c \<in> set ''0123456789'')"

text \<open>A character of the class \<^verbatim>\<open>[a-z0-9+\s]\<close>.\<close>

definition allowedChar :: "char \<Rightarrow> bool" where
  "allowedChar c = (isLowerLetter c \<or> isDigit c \<or> c = CHR ''+'' \<or> isWhiteSpace c)"

definition validModifiers :: "string list" where
  "validModifiers = [''ctrl'', ''alt'', ''shift'', ''cmd'', ''meta'', ''win'']"

text \<open>The punctuation keys of the pattern: backquote, - = [ ] backslash ; quote , . /\<close>

definition punctuationKeys :: "char list" where
  "punctuationKeys = [CHR 0x60, CHR ''-'', CHR ''='', CHR ''['', CHR '']'', CHR 0x5C, CHR '';'',
                      CHR 0x27, CHR '','', CHR ''.'', CHR ''/'']"

text \<open>A match of the whole part with one letter, f and digits, digits, or one punctuation key.\<close>

fun isValidKey :: "string \<Rightarrow> bool" where
  "isValidKey [] = False"
| "isValidKey [c] = (isLowerLetter c \<or> isDigit c \<or> c \<in> set punctuationKeys)"
| "isValidKey (c # d # ds) = ((c = CHR ''f'' \<or> isDigit c) \<and> list_all isDigit (d # ds))"

text \<open>The format test of one chord: no key between the \<^verbatim>\<open>+\<close> signs is empty.\<close>

definition hasEmptyKey :: "string \<Rightarrow> bool" where
  "hasEmptyKey chord =
     (let keys = split_on CHR ''+'' chord
      in length keys = 0 \<or> list_ex (\<lambda>k. trim k = []) keys)"

fun checkChords :: "string list \<Rightarrow> validation_message option" where
  "checkChords [] = None"
| "checkChords (chord # chords) =
     (let keys = split_on CHR ''+'' chord
      in if hasEmptyKey chord then Some InvalidFormat
         else if list_ex (\<lambda>k. k \<in> set validModifiers) keys \<and> length keys = 1
         then Some OnlyModifiers
         else checkChords chords)"

text \<open>The result \<open>None\<close> is \<^verbatim>\<open>undefined\<close>: the input is accepted.\<close>

definition validateKeybinding ::
  "string option \<Rightarrow> KeybindingInfo \<Rightarrow> KeybindingInfo list \<Rightarrow> validation_message option" where
  "validateKeybinding input currentBinding bs =
     (case input of
        None \<Rightarrow> Some EnterKeyCombination
      | Some v \<Rightarrow>
          if trim v = [] then Some EnterKeyCombination
          else
            (let normalized = trim (toLowerCase v)
             in if \<not> (normalized \<noteq> [] \<and> list_all allowedChar normalized)
                then Some InvalidCharacters
                else
                  (case find (\<lambda>part. part \<noteq> [] \<and> part \<notin> set validModifiers \<and> \<not> isValidKey part)
                             (split_where (\<lambda>c. isWhiteSpace c \<or> c = CHR ''+'') normalized) of
                     Some part \<Rightarrow> Some (NotAValidKey part)
                   | None \<Rightarrow>
                       (case checkChords (split_on CHR '' '' normalized) of
                          Some msg \<Rightarrow> Some msg
                        | None \<Rightarrow>
                            (case find (\<lambda>b. key b = normalized \<and> command b \<noteq> command currentBinding) bs of
                               Some conflict \<Rightarrow>
                                 Some (ConflictsWith (command conflict) (extensionName conflict))
                             | None \<Rightarrow> None)))))"

section \<open>ConflictResolver: reassigning a key\<close>

text \<open>The error of \<^verbatim>\<open>reassignKeybinding\<close> quotes the new key, the extension name and the command.\<close>

datatype resolver_error = KeyAlreadyAssigned string string string

text \<open>Reading creates a missing file with the content \<^verbatim>\<open>[]\<close>; a text that does not parse reads as empty.\<close>

definition readKeybindingsFile :: "keybindings_file \<Rightarrow> user_keybinding list \<times> keybindings_file" where
  "readKeybindingsFile file =
     (case file of
        Missing \<Rightarrow> ([], Entries [])
      | Blank \<Rightarrow> ([], Blank)
      | Malformed \<Rightarrow> ([], Malformed)
      | Entries keybindings \<Rightarrow> (keybindings, Entries keybindings))"

definition writeKeybindingsFile :: "user_keybinding list \<Rightarrow> keybindings_file" where
  "writeKeybindingsFile keybindings = Entries keybindings"

text \<open>\<^verbatim>\<open>if (binding.when) entry.when = binding.when\<close>\<close>

definition whenOf :: "KeybindingInfo \<Rightarrow> string option" where
  "whenOf binding = (case when binding of Some w \<Rightarrow> (if w \<noteq> [] then Some w else None) | None \<Rightarrow> None)"

definition reassignKeybinding ::
  "KeybindingInfo \<Rightarrow> string \<Rightarrow> KeybindingInfo list \<Rightarrow> keybindings_file
     \<Rightarrow> (resolver_error + unit) \<times> keybindings_file" where
  "reassignKeybinding binding newKey bs file =
     (case readKeybindingsFile file of
        (currentKeybindings, file') \<Rightarrow>
          (let normalizedNewKey = trim (toLowerCase newKey)
           in case find (\<lambda>b. key b = normalizedNewKey \<and> command b \<noteq> command binding) bs of
                Some conflict \<Rightarrow>
                  (Inl (KeyAlreadyAssigned newKey (extensionName conflict) (command conflict)), file')
              | None \<Rightarrow>
                  (let disableEntry = \<lparr>uk_key = Some (key binding),
                                       uk_command = Some (CHR ''-'' # command binding),
                                       uk_when = whenOf binding\<rparr>;
                       newEntry = \<lparr>uk_key = Some normalizedNewKey,
                                   uk_command = Some (command binding),
                                   uk_when = whenOf binding\<rparr>
                   in (Inr (), writeKeybindingsFile (currentKeybindings @ [disableEntry, newEntry])))))"

section \<open>Notions used in the statements\<close>

text \<open>A string is trimmed when it neither starts nor ends with white space.\<close>

definition trimmed :: "string \<Rightarrow> bool" where
  "trimmed s = (s = [] \<or> (\<not> isWhiteSpace (hd s) \<and> \<not> isWhiteSpace (last s)))"

definition lowercase :: "string \<Rightarrow> bool" where
  "lowercase s = (\<forall>x\<in>set s. lowerChar x = x)"

text \<open>The parts that \<open>normalizeSingleKey\<close> computes from its argument.\<close>

definition keyParts :: "string \<Rightarrow> string list" where
  "keyParts k = map trim (split_on CHR ''+'' (trim (toLowerCase k)))"

text \<open>The parts that \<open>normalizeSingleKey\<close> joins: the sorted modifiers, then the main key if it is not empty.\<close>

definition canonicalParts :: "string list \<Rightarrow> string list" where
  "canonicalParts parts =
     sort_key (indexOf modifierOrder) (filter isModifierKey parts) @
     (let rest = filter (\<lambda>p. \<not> isModifierKey p) parts
      in if rest = [] \<or> last rest = [] then [] else [last rest])"

text \<open>
  A key-combo string is well formed when it passes the format test of the validation:
  in every sub-combo of the chord, no key between the \<^verbatim>\<open>+\<close> signs is empty.
\<close>

definition wellFormed :: "string \<Rightarrow> bool" where
  "wellFormed x = list_all (\<lambda>chord. \<not> hasEmptyKey chord) (split_on CHR '' '' (trim (toLowerCase x)))"

text \<open>The bindings that the filter of \<open>findConflicts\<close> keeps.\<close>

definition liveBindings :: "KeybindingInfo list \<Rightarrow> string set \<Rightarrow> KeybindingInfo list" where
  "liveBindings bs userDisabledCommands = filter (\<lambda>b. command b \<notin> userDisabledCommands) bs"

text \<open>
  An instance of the host's comparison, for the example hosts: the order in which the
  root collation of the host's ICU library puts the ASCII characters, white space first,
  then punctuation (underscore, hyphen, comma, semicolon, colon, exclamation mark,
  question mark, full stop, quote, double quote, the brackets, at sign, asterisk, slash,
  backslash, ampersand, number sign, percent), then symbols (backquote, circumflex, plus,
  less, equals, greater, bar, tilde), the dollar sign, the digits and the letters.
  Strings compare character by character in this order, which is how the collation
  compares the lower-case ASCII strings that are keys. A character outside the table
  comes after the letters.
\<close>

definition collationOrder :: "char list" where
  "collationOrder =
     [CHR 0x09, CHR 0x0A, CHR 0x0B, CHR 0x0C, CHR 0x0D, CHR 0x20,
      CHR 0x5F, CHR 0x2D, CHR 0x2C, CHR 0x3B, CHR 0x3A, CHR 0x21, CHR 0x3F, CHR 0x2E,
      CHR 0x27, CHR 0x22, CHR 0x28, CHR 0x29, CHR 0x5B, CHR 0x5D, CHR 0x7B, CHR 0x7D,
      CHR 0x40, CHR 0x2A, CHR 0x2F, CHR 0x5C, CHR 0x26, CHR 0x23, CHR 0x25,
      CHR 0x60, CHR 0x5E, CHR 0x2B, CHR 0x3C, CHR 0x3D, CHR 0x3E, CHR 0x7C, CHR 0x7E,
      CHR 0x24] @
     ''0123456789'' @
     ''aAbBcCdDeEfFgGhHiIjJkKlLmMnNoOpPqQrRsStTuUvVwWxXyYzZ''"

fun rankOr :: "int \<Rightarrow> char \<Rightarrow> int" where
  "rankOr i c = (if i < 0 then 1000 + int (of_char c) else i)"

definition collationRank :: "char \<Rightarrow> int" where
  "collationRank c = rankOr (indexOf collationOrder c) c"

definition collationCompare :: "string \<Rightarrow> string \<Rightarrow> int" where
  "collationCompare a b =
     (if map collationRank a < map collationRank b then -1
      else if map collationRank b < map collationRank a then 1
      else 0)"

section \<open>Example installations\<close>

text \<open>
  Three extensions: X and Y bind the same chord (written in different case), the same
  zoom key and the same reset key; Z binds one key twice, under two contexts.
\<close>

definition contribution :: "string \<Rightarrow> string \<Rightarrow> string option \<Rightarrow> keybinding_contribution" where
  "contribution c k w =
     \<lparr>kb_command = c, kb_key = Some (OneKey k), kb_mac = None, kb_linux = None, kb_win = None,
      kb_when = w\<rparr>"

definition extensionX :: extension where
  "extensionX =
     \<lparr>ext_id = ''pub.x'', ext_displayName = Some ''X Tools'', ext_name = Some ''x'',
      ext_keybindings = Some [contribution ''x.save'' ''ctrl+k ctrl+s'' None,
                              contribution ''x.reset'' ''ctrl+0'' None,
                              contribution ''x.zoom'' ''ctrl+='' None]\<rparr>"

definition extensionY :: extension where
  "extensionY =
     \<lparr>ext_id = ''pub.y'', ext_displayName = None, ext_name = Some ''y'',
      ext_keybindings = Some [contribution ''y.save2'' ''ctrl+K ctrl+S'' None,
                              contribution ''y.reset'' ''Ctrl+0'' None,
                              contribution ''y.zoom'' ''ctrl+='' None]\<rparr>"

definition extensionZ :: extension where
  "extensionZ =
     \<lparr>ext_id = ''pub.z'', ext_displayName = None, ext_name = None,
      ext_keybindings = Some [contribution ''z.confirm'' ''ctrl+enter'' (Some ''inQuickOpen''),
                              contribution ''z.commit'' ''ctrl+enter'' (Some ''scmRepository'')]\<rparr>"

definition binding :: "string \<Rightarrow> string \<Rightarrow> string option \<Rightarrow> string \<Rightarrow> string \<Rightarrow> KeybindingInfo" where
  "binding k c w i n = \<lparr>key = k, command = c, when = w, extensionId = i, extensionName = n\<rparr>"

text \<open>The bindings that a scan collects from the three extensions.\<close>

definition exampleBindings :: "KeybindingInfo list" where
  "exampleBindings =
     [binding ''ctrl+k ctrl+s'' ''x.save'' None ''pub.x'' ''X Tools'',
      binding ''ctrl+0'' ''x.reset'' None ''pub.x'' ''X Tools'',
      binding ''ctrl+='' ''x.zoom'' None ''pub.x'' ''X Tools'',
      binding ''ctrl+k ctrl+s'' ''y.save2'' None ''pub.y'' ''y'',
      binding ''ctrl+0'' ''y.reset'' None ''pub.y'' ''y'',
      binding ''ctrl+='' ''y.zoom'' None ''pub.y'' ''y'',
      binding ''ctrl+enter'' ''z.confirm'' (Some ''inQuickOpen'') ''pub.z'' ''pub.z'',
      binding ''ctrl+enter'' ''z.commit'' (Some ''scmRepository'') ''pub.z'' ''pub.z'']"

definition saveGroup :: ConflictGroup where
  "saveGroup =
     \<lparr>group_key = ''ctrl+k ctrl+s'',
      bindings = [binding ''ctrl+k ctrl+s'' ''x.save'' None ''pub.x'' ''X Tools'',
                  binding ''ctrl+k ctrl+s'' ''y.save2'' None ''pub.y'' ''y'']\<rparr>"

definition resetGroup :: ConflictGroup where
  "resetGroup =
     \<lparr>group_key = ''ctrl+0'',
      bindings = [binding ''ctrl+0'' ''x.reset'' None ''pub.x'' ''X Tools'',
                  binding ''ctrl+0'' ''y.reset'' None ''pub.y'' ''y'']\<rparr>"

definition zoomGroup :: ConflictGroup where
  "zoomGroup =
     \<lparr>group_key = ''ctrl+='',
      bindings = [binding ''ctrl+='' ''x.zoom'' None ''pub.x'' ''X Tools'',
                  binding ''ctrl+='' ''y.zoom'' None ''pub.y'' ''y'']\<rparr>"

text \<open>A Linux host without a keybindings.json, and the same host after the user removed \<open>x.save\<close>.\<close>

definition exampleHost :: host where
  "exampleHost =
     \<lparr>extensions = [extensionX, extensionY, extensionZ], host_platform = Linux,
      keybindingsFile = Missing, localeCompare = collationCompare\<rparr>"

definition removeSave :: user_keybinding where
  "removeSave = \<lparr>uk_key = None, uk_command = Some ''-x.save'', uk_when = None\<rparr>"

definition overrideHost :: host where
  "overrideHost = exampleHost\<lparr>keybindingsFile := Entries [removeSave]\<rparr>"

definition newScanner :: scanner where
  "newScanner = \<lparr>allBindings = []\<rparr>"

text \<open>A binding to reassign, and an existing binding of another command.\<close>

definition pasteBinding :: KeybindingInfo where
  "pasteBinding = binding ''ctrl+v'' ''x.paste'' None ''pub.x'' ''X Tools''"

definition pasteSpecialBinding :: KeybindingInfo where
  "pasteSpecialBinding = binding ''ctrl+shift+v'' ''y.pasteSpecial'' None ''pub.y'' ''y''"

section \<open>Lemmas about strings\<close>

subsection \<open>Characters\<close>

lemma lowerChar_cases:
  "lowerChar c = c \<or> (c \<in> set upperChars \<and> lowerChar c \<in> set lowerChars)"
proof (cases "map_of (zip upperChars lowerChars) c")
  case None
  then show ?thesis by (simp add: lowerChar_def)
next
  case (Some d)
  then have "(c, d) \<in> set (zip upperChars lowerChars)" by (rule map_of_SomeD)
  then have "c \<in> set upperChars" "d \<in> set lowerChars"
    by (auto dest: set_zip_leftD set_zip_rightD)
  then show ?thesis using Some by (simp add: lowerChar_def)
qed

lemma lower_not_upper: "d \<in> set lowerChars \<Longrightarrow> d \<notin> set upperChars"
  by (simp add: lowerChars_def upperChars_def) (elim disjE; simp)

lemma lowerChar_fix: "c \<notin> set upperChars \<Longrightarrow> lowerChar c = c"
  using lowerChar_cases by blast

lemma lowerChar_idem: "lowerChar (lowerChar c) = lowerChar c"
  using lowerChar_cases [of c] lower_not_upper lowerChar_fix by metis

lemma ws_not_upper: "isWhiteSpace c \<Longrightarrow> c \<notin> set upperChars"
  by (simp add: isWhiteSpace_def upperChars_def) (elim disjE; simp)

lemma ws_not_lower: "isWhiteSpace c \<Longrightarrow> c \<notin> set lowerChars"
  by (simp add: isWhiteSpace_def lowerChars_def) (elim disjE; simp)

lemma isWhiteSpace_lowerChar: "isWhiteSpace (lowerChar c) = isWhiteSpace c"
  using lowerChar_cases [of c] ws_not_upper ws_not_lower by metis

lemma plus_not_letter: "CHR ''+'' \<notin> set upperChars" "CHR ''+'' \<notin> set lowerChars"
  by (simp_all add: upperChars_def lowerChars_def)

lemma lowerChar_eq_plus: "lowerChar c = CHR ''+'' \<longleftrightarrow> c = CHR ''+''"
  using lowerChar_cases [of c] plus_not_letter by metis

lemma space_ws: "isWhiteSpace CHR '' ''" "\<not> isWhiteSpace CHR ''+''"
  by (simp_all add: isWhiteSpace_def)

lemma lowerChar_eq_space: "lowerChar c = CHR '' '' \<longleftrightarrow> c = CHR '' ''"
  using lowerChar_cases [of c] ws_not_upper ws_not_lower space_ws(1) by metis

subsection \<open>toLowerCase and trim\<close>

lemma toLowerCase_idem: "toLowerCase (toLowerCase s) = toLowerCase s"
  by (simp add: toLowerCase_def lowerChar_idem)

lemma toLowerCase_append: "toLowerCase (s @ t) = toLowerCase s @ toLowerCase t"
  by (simp add: toLowerCase_def)

lemma toLowerCase_Nil_iff: "toLowerCase s = [] \<longleftrightarrow> s = []"
  by (simp add: toLowerCase_def)

lemma plus_in_toLowerCase: "CHR ''+'' \<in> set (toLowerCase s) \<longleftrightarrow> CHR ''+'' \<in> set s"
  unfolding toLowerCase_def set_map image_iff using lowerChar_eq_plus by metis

lemma space_in_toLowerCase: "CHR '' '' \<in> set (toLowerCase s) \<longleftrightarrow> CHR '' '' \<in> set s"
  unfolding toLowerCase_def set_map image_iff using lowerChar_eq_space by metis

lemma trimStart_toLowerCase: "trimStart (toLowerCase s) = toLowerCase (trimStart s)"
  by (simp add: trimStart_def toLowerCase_def dropWhile_map comp_def isWhiteSpace_lowerChar)

lemma trimEnd_toLowerCase: "trimEnd (toLowerCase s) = toLowerCase (trimEnd s)"
  by (simp add: trimEnd_def toLowerCase_def dropWhile_map comp_def isWhiteSpace_lowerChar rev_map)

lemma trim_toLowerCase: "trim (toLowerCase s) = toLowerCase (trim s)"
  by (simp add: trim_def trimStart_toLowerCase trimEnd_toLowerCase)

lemma trimEnd_Cons:
  "trimEnd (x # s) = (if trimEnd s = [] \<and> isWhiteSpace x then [] else x # trimEnd s)"
  by (auto simp: trimEnd_def dropWhile_append)

lemma trimStart_trimEnd: "trimStart (trimEnd s) = trimEnd (trimStart s)"
proof (induction s)
  case Nil
  show ?case by (simp add: trimStart_def trimEnd_def)
next
  case (Cons x s)
  show ?case
  proof (cases "isWhiteSpace x")
    case True
    have "trimStart (trimEnd (x # s)) = trimStart (trimEnd s)"
      using True by (simp add: trimEnd_Cons) (simp add: trimStart_def)
    moreover have "trimEnd (trimStart (x # s)) = trimEnd (trimStart s)"
      using True by (simp add: trimStart_def)
    ultimately show ?thesis using Cons.IH by simp
  next
    case False
    then show ?thesis by (simp add: trimEnd_Cons) (simp add: trimStart_def trimEnd_Cons)
  qed
qed

lemma trimStart_idem: "trimStart (trimStart s) = trimStart s"
  by (simp add: trimStart_def)

lemma trimEnd_idem: "trimEnd (trimEnd s) = trimEnd s"
  by (simp add: trimEnd_def)

lemma trim_idem: "trim (trim s) = trim s"
  by (simp add: trim_def trimStart_trimEnd trimStart_idem trimEnd_idem)

lemma trim_trimStart: "trim (trimStart s) = trim s"
  by (simp add: trim_def trimStart_idem)

lemma trim_trimEnd: "trim (trimEnd s) = trim s"
  by (simp add: trim_def trimStart_trimEnd trimEnd_idem)

lemma set_trim: "set (trim s) \<subseteq> set s"
proof -
  have "set (trimEnd t) \<subseteq> set t" for t
    using set_dropWhileD [of _ isWhiteSpace "rev t"] by (auto simp: trimEnd_def)
  moreover have "set (trimStart t) \<subseteq> set t" for t
    using set_dropWhileD [of _ isWhiteSpace t] by (auto simp: trimStart_def)
  ultimately show ?thesis unfolding trim_def by blast
qed

lemma trim_Nil_iff: "trim s = [] \<longleftrightarrow> (\<forall>c\<in>set s. isWhiteSpace c)"
proof
  assume "trim s = []"
  then have "trimStart (trimEnd s) = []" by (simp add: trim_def trimStart_trimEnd)
  then have "\<forall>c\<in>set (trimEnd s). isWhiteSpace c"
    by (simp add: trimStart_def)
  then have "trimEnd s = []"
    using hd_dropWhile [of isWhiteSpace "rev s"] hd_in_set [of "dropWhile isWhiteSpace (rev s)"]
    by (auto simp: trimEnd_def)
  then show "\<forall>c\<in>set s. isWhiteSpace c"
    by (simp add: trimEnd_def)
next
  assume "\<forall>c\<in>set s. isWhiteSpace c"
  then have "trimStart s = []" by (simp add: trimStart_def)
  then show "trim s = []" by (simp add: trim_def trimEnd_def)
qed

lemma trimmed_trim_id: "trimmed s \<Longrightarrow> trim s = s"
proof (cases s rule: rev_cases)
  case Nil
  then show ?thesis by (simp add: trim_def trimStart_def trimEnd_def)
next
  case (snoc t x)
  assume "trimmed s"
  then have h: "\<not> isWhiteSpace (hd s)" and l: "\<not> isWhiteSpace x"
    using snoc by (auto simp: trimmed_def)
  have "s \<noteq> []" using snoc by simp
  then have "trimStart s = s" using h by (cases s) (auto simp: trimStart_def)
  moreover have "trimEnd s = s" using l snoc by (simp add: trimEnd_def)
  ultimately show ?thesis by (simp add: trim_def)
qed

lemma trimmed_trim: "trimmed (trim s)"
proof (cases "trim s = []")
  case True
  then show ?thesis by (simp add: trimmed_def)
next
  case False
  have "\<not> isWhiteSpace (hd (trim s))"
    using False hd_dropWhile [of isWhiteSpace "trimEnd s"]
    by (simp add: trim_def trimStart_trimEnd [symmetric]) (simp add: trimStart_def)
  moreover have "\<not> isWhiteSpace (last (trim s))"
    using False hd_dropWhile [of isWhiteSpace "rev (trimStart s)"]
    by (simp add: trim_def trimEnd_def last_rev)
  ultimately show ?thesis by (simp add: trimmed_def)
qed

lemma trimmed_iff: "trimmed s \<longleftrightarrow> trim s = s"
  using trimmed_trim_id trimmed_trim by metis

subsection \<open>split and join\<close>

lemma split_where_Cons: "\<exists>p ps. split_where sep s = p # ps"
proof (induction s)
  case Nil
  show ?case by simp
next
  case (Cons x s)
  then obtain p ps where "split_where sep s = p # ps" by blast
  then show ?case by simp
qed

lemma split_where_not_Nil: "split_where sep s \<noteq> []"
  using split_where_Cons [of sep s] by auto

lemma cons_head_eq: "ps \<noteq> [] \<Longrightarrow> cons_head x ps = (x # hd ps) # tl ps"
  by (cases ps) simp_all

lemma split_where_no_sep: "\<forall>x\<in>set s. \<not> sep x \<Longrightarrow> split_where sep s = [s]"
  by (induction s) simp_all

lemma split_where_append_sep:
  "\<forall>x\<in>set p. \<not> sep x \<Longrightarrow> sep c \<Longrightarrow> split_where sep (p @ c # rest) = p # split_where sep rest"
  by (induction p) simp_all

lemma split_where_pieces:
  "p \<in> set (split_where sep s) \<Longrightarrow> x \<in> set p \<Longrightarrow> \<not> sep x \<and> x \<in> set s"
proof (induction s arbitrary: p)
  case Nil
  then show ?case by simp
next
  case (Cons y s)
  obtain q qs where q: "split_where sep s = q # qs"
    using split_where_Cons by blast
  show ?case
  proof (cases "sep y")
    case True
    then have "p = [] \<or> p \<in> set (split_where sep s)" using Cons.prems(1) by auto
    then show ?thesis using Cons.IH Cons.prems(2) by auto
  next
    case False
    then have "p = y # q \<or> p \<in> set qs" using Cons.prems(1) q by auto
    then show ?thesis
    proof
      assume "p = y # q"
      then have "x = y \<or> x \<in> set q" using Cons.prems(2) by auto
      then show ?thesis using False Cons.IH [of q] q by auto
    next
      assume "p \<in> set qs"
      then show ?thesis using Cons.IH [of p] q Cons.prems(2) by auto
    qed
  qed
qed

lemma split_on_no_sep: "p \<in> set (split_on c s) \<Longrightarrow> c \<notin> set p"
  using split_where_pieces [of p "\<lambda>x. x = c" s c] by (auto simp: split_on_def)

lemma split_on_subset: "p \<in> set (split_on c s) \<Longrightarrow> set p \<subseteq> set s"
  using split_where_pieces [of p "\<lambda>x. x = c" s] by (auto simp: split_on_def)

lemma split_on_single: "c \<notin> set s \<Longrightarrow> split_on c s = [s]"
  using split_where_no_sep [of s "\<lambda>x. x = c"] by (auto simp: split_on_def)

lemma split_on_append_sep: "c \<notin> set p \<Longrightarrow> split_on c (p @ c # rest) = p # split_on c rest"
  using split_where_append_sep [of p "\<lambda>x. x = c" c rest] by (auto simp: split_on_def)

lemma split_on_not_Nil: "split_on c s \<noteq> []"
  by (simp add: split_on_def split_where_not_Nil)

lemma length_split_on_one: "length (split_on c s) = 1 \<longleftrightarrow> c \<notin> set s"
proof
  assume l: "length (split_on c s) = 1"
  show "c \<notin> set s"
  proof
    assume "c \<in> set s"
    then obtain p rest where "s = p @ c # rest" "c \<notin> set p"
      by (meson split_list_first)
    then have "split_on c s = p # split_on c rest" by (simp add: split_on_append_sep)
    then show False using l split_on_not_Nil [of c rest] by (cases "split_on c rest") auto
  qed
next
  assume "c \<notin> set s"
  then show "length (split_on c s) = 1" by (simp add: split_on_single)
qed

lemma split_on_join:
  "ps \<noteq> [] \<Longrightarrow> \<forall>p\<in>set ps. c \<notin> set p \<Longrightarrow> split_on c (join [c] ps) = ps"
proof (induction "[c]" ps rule: join.induct)
  case 1
  then show ?case by simp
next
  case (2 p)
  then show ?case by (simp add: split_on_single)
next
  case (3 p q ps)
  then show ?case by (simp add: split_on_append_sep)
qed

lemma set_join: "set (join sep ps) \<subseteq> set sep \<union> (\<Union>p\<in>set ps. set p)"
  by (induction sep ps rule: join.induct) auto

lemma toLowerCase_join:
  "toLowerCase (join sep ps) = join (toLowerCase sep) (map toLowerCase ps)"
  by (induction sep ps rule: join.induct) (simp_all add: toLowerCase_def)

lemma join_Nil_iff: "sep \<noteq> [] \<Longrightarrow> join sep ps = [] \<longleftrightarrow> ps = [] \<or> ps = [[]]"
  by (induction sep ps rule: join.induct) auto

lemma hd_join: "ps \<noteq> [] \<Longrightarrow> hd ps \<noteq> [] \<Longrightarrow> hd (join sep ps) = hd (hd ps)"
  by (induction sep ps rule: join.induct) auto

lemma last_join: "ps \<noteq> [] \<Longrightarrow> last ps \<noteq> [] \<Longrightarrow> last (join sep ps) = last (last ps)"
proof (induction sep ps rule: join.induct)
  case (3 sep p q ps)
  have "join sep (q # ps) \<noteq> []" using 3 by (induction sep "q # ps" arbitrary: q ps rule: join.induct) auto
  then show ?case using 3 by simp
qed auto

lemma trimmed_join:
  assumes "ps \<noteq> []" "hd ps \<noteq> []" "last ps \<noteq> []" "trimmed (hd ps)" "trimmed (last ps)"
  shows "trimmed (join sep ps)"
  using assms by (simp add: trimmed_def hd_join last_join)

subsection \<open>Trimming the string or its pieces\<close>

lemma split_where_dropWhile:
  assumes "\<And>x. sep x \<Longrightarrow> \<not> W x"
  shows "split_where sep (dropWhile W s) =
           dropWhile W (hd (split_where sep s)) # tl (split_where sep s)"
proof (induction s)
  case Nil
  show ?case by simp
next
  case (Cons x s)
  obtain q qs where q: "split_where sep s = q # qs"
    using split_where_Cons by blast
  show ?case
  proof (cases "W x")
    case True
    then have "\<not> sep x" using assms by blast
    then show ?thesis using True Cons.IH q by simp
  next
    case False
    then show ?thesis using q by simp
  qed
qed

lemma split_where_snoc:
  "split_where sep (s @ [x]) =
     (if sep x then split_where sep s @ [[]]
      else butlast (split_where sep s) @ [last (split_where sep s) @ [x]])"
proof (induction s)
  case Nil
  show ?case by simp
next
  case (Cons y s)
  obtain q qs where q: "split_where sep s = q # qs"
    using split_where_Cons by blast
  show ?case
  proof (cases "sep x")
    case True
    then show ?thesis using Cons.IH q by simp
  next
    case False
    then show ?thesis using Cons.IH q by (cases qs rule: rev_cases) auto
  qed
qed

lemma split_where_rev: "split_where sep (rev s) = rev (map rev (split_where sep s))"
proof (induction s)
  case Nil
  show ?case by simp
next
  case (Cons x s)
  obtain q qs where q: "split_where sep s = q # qs"
    using split_where_Cons by blast
  show ?case using Cons.IH q by (simp add: split_where_snoc)
qed

lemma split_where_trimEnd:
  assumes "\<And>x. sep x \<Longrightarrow> \<not> isWhiteSpace x"
  shows "split_where sep (trimEnd s) =
           butlast (split_where sep s) @ [trimEnd (last (split_where sep s))]"
proof -
  obtain q qs where q: "split_where sep s = q # qs"
    using split_where_Cons by blast
  have "split_where sep (trimEnd s) =
          rev (map rev (split_where sep (dropWhile isWhiteSpace (rev s))))"
    by (simp add: trimEnd_def split_where_rev)
  also have "split_where sep (dropWhile isWhiteSpace (rev s)) =
      dropWhile isWhiteSpace (hd (split_where sep (rev s))) # tl (split_where sep (rev s))"
    using assms by (rule split_where_dropWhile)
  finally show ?thesis
    using q by (cases qs rule: rev_cases) (simp_all add: split_where_rev trimEnd_def rev_map)
qed

lemma map_trim_split_trim:
  assumes "\<not> isWhiteSpace c"
  shows "map trim (split_on c (trim s)) = map trim (split_on c s)"
proof -
  let ?sep = "\<lambda>x. x = c"
  have sep: "\<And>x. ?sep x \<Longrightarrow> \<not> isWhiteSpace x" using assms by simp
  obtain q qs where q: "split_where ?sep s = q # qs"
    using split_where_Cons by blast
  have start: "split_where ?sep (trimStart s) = trimStart q # qs"
    using split_where_dropWhile [of ?sep isWhiteSpace s, OF sep] q by (simp add: trimStart_def)
  have "split_where ?sep (trim s) =
          butlast (trimStart q # qs) @ [trimEnd (last (trimStart q # qs))]"
    using split_where_trimEnd [of ?sep "trimStart s", OF sep] start by (simp add: trim_def)
  then have *: "split_on c (trim s) = butlast (trimStart q # qs) @ [trimEnd (last (trimStart q # qs))]"
    by (simp add: split_on_def)
  show ?thesis
  proof (cases qs rule: rev_cases)
    case Nil
    then have "split_on c (trim s) = [trim q]" using * by (simp add: trim_def)
    then show ?thesis using q Nil by (simp add: split_on_def trim_idem)
  next
    case (snoc ys y)
    then have "split_on c (trim s) = trimStart q # ys @ [trimEnd y]" using * by simp
    then show ?thesis using q snoc by (simp add: split_on_def trim_trimStart trim_trimEnd)
  qed
qed

subsection \<open>Sorting the modifiers\<close>

lemma insert_by_insort_key: "insert_by (\<lambda>a b. f a - f b) x xs = insort_key f x xs"
  for f :: "'a \<Rightarrow> int"
  by (induction xs) simp_all

lemma array_sort_sort_key: "array_sort (\<lambda>a b. f a - f b) xs = sort_key f xs"
  for f :: "'a \<Rightarrow> int"
  by (induction xs) (simp_all add: array_sort_def insert_by_insort_key)

lemma sort_modifiers: "array_sort compareModifiers ms = sort_key (indexOf modifierOrder) ms"
proof -
  have "compareModifiers = (\<lambda>a b. indexOf modifierOrder a - indexOf modifierOrder b)"
    by (simp add: compareModifiers_def fun_eq_iff)
  then show ?thesis using array_sort_sort_key [of "indexOf modifierOrder" ms] by simp
qed

lemma separateParts_eq:
  "separateParts parts (ms, mk) =
     (ms @ filter isModifierKey parts,
      if filter (\<lambda>p. \<not> isModifierKey p) parts = [] then mk
      else last (filter (\<lambda>p. \<not> isModifierKey p) parts))"
  by (induction parts arbitrary: ms mk) simp_all

lemma normalizeSingleKey_alt:
  "normalizeSingleKey k =
     (if length (keyParts k) = 1 then trim (toLowerCase k)
      else join ''+'' (canonicalParts (keyParts k)))"
  by (simp add: normalizeSingleKey_def keyParts_def canonicalParts_def separateParts_eq
      sort_modifiers Let_def)

lemma not_modifier_Nil: "\<not> isModifierKey []"
  by (simp add: isModifierKey_def modifiers_def toLowerCase_def)

lemma set_canonicalParts: "set (canonicalParts parts) \<subseteq> set parts - {[]}"
proof -
  let ?rest = "filter (\<lambda>p. \<not> isModifierKey p) parts"
  have "?rest \<noteq> [] \<Longrightarrow> last ?rest \<in> set parts"
    using last_in_set [of ?rest] by auto
  moreover have "set (filter isModifierKey parts) \<subseteq> set parts - {[]}"
    using not_modifier_Nil by auto
  ultimately show ?thesis by (auto simp: canonicalParts_def Let_def)
qed

lemma canonicalParts_idem: "canonicalParts (canonicalParts parts) = canonicalParts parts"
proof -
  let ?ms = "sort_key (indexOf modifierOrder) (filter isModifierKey parts)"
  let ?rest = "filter (\<lambda>p. \<not> isModifierKey p) parts"
  have ms: "filter isModifierKey ?ms = ?ms" "filter (\<lambda>p. \<not> isModifierKey p) ?ms = []"
    by (simp_all add: filter_sort [symmetric])
  have srt: "sort_key (indexOf modifierOrder) ?ms = ?ms"
    by (rule sort_key_id_if_sorted) simp
  show ?thesis
  proof (cases "?rest = [] \<or> last ?rest = []")
    case True
    then have "canonicalParts parts = ?ms" by (auto simp: canonicalParts_def)
    then show ?thesis using ms srt by (simp add: canonicalParts_def [of ?ms])
  next
    case False
    then have nm: "\<not> isModifierKey (last ?rest)"
      using last_in_set [of ?rest] by auto
    have cp: "canonicalParts parts = ?ms @ [last ?rest]"
      using False by (auto simp: canonicalParts_def)
    show ?thesis unfolding cp
      unfolding canonicalParts_def [of "?ms @ [last ?rest]"]
      using ms srt nm False by (simp add: Let_def)
  qed
qed

lemma canonicalParts_not_Nil:
  assumes "parts \<noteq> []" "[] \<notin> set parts"
  shows "canonicalParts parts \<noteq> []"
proof (cases "filter (\<lambda>p. \<not> isModifierKey p) parts = []")
  case True
  then have "filter isModifierKey parts = parts"
    by (simp add: filter_empty_conv filter_id_conv)
  moreover have "sort_key (indexOf modifierOrder) parts \<noteq> []"
    using assms(1) length_sort [of "indexOf modifierOrder" parts] by fastforce
  ultimately show ?thesis by (simp add: canonicalParts_def)
next
  case False
  then have "last (filter (\<lambda>p. \<not> isModifierKey p) parts) \<in> set parts"
    using last_in_set [of "filter (\<lambda>p. \<not> isModifierKey p) parts"] by auto
  then have "last (filter (\<lambda>p. \<not> isModifierKey p) parts) \<noteq> []"
    using assms(2) by auto
  then show ?thesis using False by (simp add: canonicalParts_def)
qed

subsection \<open>Clean strings: lower case, trimmed, without the separator\<close>

lemma lowercase_iff: "lowercase s \<longleftrightarrow> toLowerCase s = s"
  by (simp add: lowercase_def toLowerCase_def map_idI map_eq_conv [of lowerChar s id, simplified])

lemma lowercase_toLowerCase: "lowercase (toLowerCase s)"
  by (simp add: lowercase_def toLowerCase_def lowerChar_idem)

lemma lowercase_subset: "lowercase s \<Longrightarrow> set t \<subseteq> set s \<Longrightarrow> lowercase t"
  by (auto simp: lowercase_def)

lemma lowercase_trim: "lowercase s \<Longrightarrow> lowercase (trim s)"
  using lowercase_subset set_trim by blast

lemma lowercase_keyParts: "p \<in> set (keyParts k) \<Longrightarrow> lowercase p"
proof -
  assume "p \<in> set (keyParts k)"
  then obtain q where q: "q \<in> set (split_on CHR ''+'' (trim (toLowerCase k)))" and p: "p = trim q"
    by (auto simp: keyParts_def)
  have "lowercase (trim (toLowerCase k))"
    by (simp add: lowercase_trim lowercase_toLowerCase)
  then have "lowercase q" using q split_on_subset lowercase_subset by blast
  then show ?thesis using p by (simp add: lowercase_trim)
qed

lemma no_plus_keyParts: "p \<in> set (keyParts k) \<Longrightarrow> CHR ''+'' \<notin> set p"
  using split_on_no_sep set_trim by (fastforce simp: keyParts_def)

lemma trimmed_keyParts: "p \<in> set (keyParts k) \<Longrightarrow> trimmed p"
  by (auto simp: keyParts_def trimmed_trim)

lemma keyParts_not_Nil: "keyParts k \<noteq> []"
  by (simp add: keyParts_def split_on_not_Nil)

lemma keyParts_join:
  assumes "ps \<noteq> []" "\<forall>p\<in>set ps. p \<noteq> [] \<and> lowercase p \<and> trimmed p \<and> CHR ''+'' \<notin> set p"
  shows "trim (toLowerCase (join ''+'' ps)) = join ''+'' ps" "keyParts (join ''+'' ps) = ps"
proof -
  have "map toLowerCase ps = ps"
    using assms(2) by (simp add: map_idI lowercase_iff)
  then have low: "toLowerCase (join ''+'' ps) = join ''+'' ps"
    by (simp add: toLowerCase_join) (simp add: toLowerCase_def lowerChar_def upperChars_def lowerChars_def)
  have "trimmed (join ''+'' ps)"
    using assms by (intro trimmed_join) simp_all
  then show t: "trim (toLowerCase (join ''+'' ps)) = join ''+'' ps"
    using low by (simp add: trimmed_trim_id)
  have "split_on CHR ''+'' (join ''+'' ps) = ps"
    using assms by (intro split_on_join) simp_all
  moreover have "map trim ps = ps"
    using assms(2) by (simp add: map_idI trimmed_trim_id)
  ultimately show "keyParts (join ''+'' ps) = ps"
    using t by (simp add: keyParts_def)
qed

lemma canonicalParts_clean:
  "p \<in> set (canonicalParts (keyParts k)) \<Longrightarrow>
     p \<noteq> [] \<and> lowercase p \<and> trimmed p \<and> CHR ''+'' \<notin> set p"
  using set_canonicalParts [of "keyParts k"] lowercase_keyParts trimmed_keyParts no_plus_keyParts
  by blast

subsection \<open>Properties of normalizeSingleKey\<close>

lemma normalizeSingleKey_Nil: "normalizeSingleKey [] = []"
  by (simp add: normalizeSingleKey_def trim_def trimStart_def trimEnd_def toLowerCase_def split_on_def)

lemma normalizeSingleKey_idem: "normalizeSingleKey (normalizeSingleKey k) = normalizeSingleKey k"
proof (cases "length (keyParts k) = 1")
  case True
  let ?m = "trim (toLowerCase k)"
  have m: "trim (toLowerCase ?m) = ?m"
    by (simp add: trim_toLowerCase toLowerCase_idem trim_idem)
  then have "keyParts ?m = keyParts k" by (simp add: keyParts_def)
  then show ?thesis using True m by (simp add: normalizeSingleKey_alt)
next
  case False
  let ?L = "canonicalParts (keyParts k)"
  have r: "normalizeSingleKey k = join ''+'' ?L"
    using False by (simp add: normalizeSingleKey_alt)
  show ?thesis
  proof (cases "?L = []")
    case True
    then show ?thesis using r by (simp add: normalizeSingleKey_Nil)
  next
    case nonempty: False
    have clean: "\<forall>p\<in>set ?L. p \<noteq> [] \<and> lowercase p \<and> trimmed p \<and> CHR ''+'' \<notin> set p"
      using canonicalParts_clean by blast
    have "trim (toLowerCase (join ''+'' ?L)) = join ''+'' ?L" "keyParts (join ''+'' ?L) = ?L"
      using keyParts_join [OF nonempty clean] by simp_all
    then have "normalizeSingleKey (join ''+'' ?L) = join ''+'' ?L"
      by (simp add: normalizeSingleKey_alt canonicalParts_idem)
    then show ?thesis using r by simp
  qed
qed

lemma set_normalizeSingleKey:
  "set (normalizeSingleKey k) \<subseteq> set (toLowerCase k) \<union> {CHR ''+''}"
proof (cases "length (keyParts k) = 1")
  case True
  then show ?thesis using set_trim [of "toLowerCase k"] by (auto simp: normalizeSingleKey_alt)
next
  case False
  have "set p \<subseteq> set (toLowerCase k)" if "p \<in> set (keyParts k)" for p
    using that split_on_subset [of _ "CHR ''+''" "trim (toLowerCase k)"] set_trim
    by (fastforce simp: keyParts_def)
  then have "set p \<subseteq> set (toLowerCase k)" if "p \<in> set (canonicalParts (keyParts k))" for p
    using that set_canonicalParts [of "keyParts k"] by blast
  then show ?thesis
    using False set_join [of "''+''" "canonicalParts (keyParts k)"]
    by (fastforce simp: normalizeSingleKey_alt)
qed

lemma lowercase_normalizeSingleKey: "lowercase (normalizeSingleKey k)"
proof -
  have "lowerChar x = x" if "x \<in> set (toLowerCase k) \<union> {CHR ''+''}" for x
    using that lowercase_toLowerCase [of k] lowerChar_eq_plus [of "CHR ''+''"]
    by (auto simp: lowercase_def)
  then show ?thesis using set_normalizeSingleKey [of k] by (auto simp: lowercase_def)
qed

lemma trimmed_normalizeSingleKey: "trimmed (normalizeSingleKey k)"
proof (cases "length (keyParts k) = 1")
  case True
  then show ?thesis by (simp add: normalizeSingleKey_alt trimmed_trim)
next
  case False
  let ?L = "canonicalParts (keyParts k)"
  show ?thesis
  proof (cases "?L = []")
    case True
    then show ?thesis using False by (simp add: normalizeSingleKey_alt trimmed_def)
  next
    case nonempty: False
    then have "hd ?L \<in> set ?L" "last ?L \<in> set ?L" by simp_all
    then have "trimmed (join ''+'' ?L)"
      using nonempty canonicalParts_clean by (intro trimmed_join) blast+
    then show ?thesis using False by (simp add: normalizeSingleKey_alt)
  qed
qed

lemma no_space_normalizeSingleKey:
  "CHR '' '' \<notin> set k \<Longrightarrow> CHR '' '' \<notin> set (normalizeSingleKey k)"
  using set_normalizeSingleKey [of k] space_in_toLowerCase [of k] by auto

section \<open>Properties of the normalization\<close>

lemmas normalize_eval =
  normalizeKey_def normalizeSingleKey_def trim_def trimEnd_def trimStart_def toLowerCase_def
  lowerChar_def upperChars_def lowerChars_def isWhiteSpace_def split_on_def isModifierKey_def
  modifiers_def array_sort_def compareModifiers_def indexOf_def modifierOrder_def Let_def

subsection \<open>Chords\<close>

lemma sep_in_join: "2 \<le> length ps \<Longrightarrow> c \<in> set (join [c] ps)"
proof -
  assume "2 \<le> length ps"
  then obtain p q qs where "ps = p # q # qs"
    by (cases ps; cases "tl ps") auto
  then show ?thesis by simp
qed

lemma length_split_on_ge2: "c \<in> set s \<Longrightarrow> 2 \<le> length (split_on c s)"
  using length_split_on_one [of c s] split_on_not_Nil [of c s]
  by (cases "split_on c s"; cases "tl (split_on c s)") auto

lemma normalizeKey_single:
  "CHR '' '' \<notin> set (trim (toLowerCase x)) \<Longrightarrow>
     normalizeKey x = normalizeSingleKey (trim (toLowerCase x))"
  by (simp add: normalizeKey_def)

lemma normalizeKey_chord:
  "CHR '' '' \<in> set (trim (toLowerCase x)) \<Longrightarrow>
     normalizeKey x = join '' '' (map normalizeSingleKey (split_on CHR '' '' (trim (toLowerCase x))))"
  by (simp add: normalizeKey_def)

lemma no_space_normalized_pieces:
  "q \<in> set (map normalizeSingleKey (split_on CHR '' '' s)) \<Longrightarrow> CHR '' '' \<notin> set q"
  using split_on_no_sep [of _ "CHR '' ''" s] no_space_normalizeSingleKey by auto

lemma split_normalizeKey_chord:
  assumes "CHR '' '' \<in> set (trim (toLowerCase x))"
  shows "split_on CHR '' '' (normalizeKey x) =
           map normalizeSingleKey (split_on CHR '' '' (trim (toLowerCase x)))"
proof -
  let ?ps = "map normalizeSingleKey (split_on CHR '' '' (trim (toLowerCase x)))"
  have "?ps \<noteq> []" by (simp add: split_on_not_Nil)
  moreover have "\<forall>q\<in>set ?ps. CHR '' '' \<notin> set q"
    using no_space_normalized_pieces by blast
  ultimately have "split_on CHR '' '' (join '' '' ?ps) = ?ps"
    by (rule split_on_join)
  then show ?thesis using assms by (simp add: normalizeKey_chord)
qed

lemma space_in_normalizeKey_chord:
  assumes "CHR '' '' \<in> set (trim (toLowerCase x))"
  shows "CHR '' '' \<in> set (normalizeKey x)"
proof -
  have "2 \<le> length (map normalizeSingleKey (split_on CHR '' '' (trim (toLowerCase x))))"
    using assms length_split_on_ge2 by simp
  then show ?thesis using assms sep_in_join by (simp add: normalizeKey_chord)
qed

lemma no_space_normalizeKey_single:
  assumes "CHR '' '' \<notin> set (trim (toLowerCase x))"
  shows "CHR '' '' \<notin> set (normalizeKey x)"
  using assms no_space_normalizeSingleKey by (simp add: normalizeKey_single)

text \<open>
  Claim C7. The order of the sub-combos of a chord is kept: \<open>ctrl+k ctrl+s\<close> and
  \<open>ctrl+s ctrl+k\<close> normalize to different strings, and the chord \<open>ctrl+k ctrl+n\<close> differs
  from \<open>ctrl+n\<close>. In general the sub-combos of the normalized chord are the normalized
  sub-combos of the input, one by one and in the same order, and the normal form of a
  chord never equals the normal form of a single combination.
\<close>

theorem chord_order_kept:
  "normalizeKey ''ctrl+k ctrl+s'' \<noteq> normalizeKey ''ctrl+s ctrl+k'' \<and>
   normalizeKey ''ctrl+k ctrl+n'' \<noteq> normalizeKey ''ctrl+n'' \<and>
   (CHR '' '' \<in> set (trim (toLowerCase x)) \<longrightarrow>
      split_on CHR '' '' (normalizeKey x) =
        map normalizeSingleKey (split_on CHR '' '' (trim (toLowerCase x)))) \<and>
   (CHR '' '' \<in> set (trim (toLowerCase x)) \<and> CHR '' '' \<notin> set (trim (toLowerCase y)) \<longrightarrow>
      normalizeKey x \<noteq> normalizeKey y)"
proof (intro conjI impI)
  show "normalizeKey ''ctrl+k ctrl+s'' \<noteq> normalizeKey ''ctrl+s ctrl+k''"
    by (simp add: normalize_eval)
  show "normalizeKey ''ctrl+k ctrl+n'' \<noteq> normalizeKey ''ctrl+n''"
    by (simp add: normalize_eval)
next
  assume "CHR '' '' \<in> set (trim (toLowerCase x))"
  then show "split_on CHR '' '' (normalizeKey x) =
      map normalizeSingleKey (split_on CHR '' '' (trim (toLowerCase x)))"
    by (rule split_normalizeKey_chord)
next
  assume "CHR '' '' \<in> set (trim (toLowerCase x)) \<and> CHR '' '' \<notin> set (trim (toLowerCase y))"
  then have "CHR '' '' \<in> set (normalizeKey x)" "CHR '' '' \<notin> set (normalizeKey y)"
    using space_in_normalizeKey_chord no_space_normalizeKey_single by blast+
  then show "normalizeKey x \<noteq> normalizeKey y" by metis
qed

text \<open>The chord \<open>ctrl+k ctrl+n\<close> against the single combination \<open>ctrl+n\<close>.\<close>

theorem chord_order_kept_witness:
  "CHR '' '' \<in> set (trim (toLowerCase ''ctrl+k ctrl+n'')) \<and>
   CHR '' '' \<notin> set (trim (toLowerCase ''ctrl+n'')) \<and>
   split_on CHR '' '' (normalizeKey ''ctrl+k ctrl+n'') = [''ctrl+k'', ''ctrl+n''] \<and>
   normalizeKey ''ctrl+k ctrl+n'' \<noteq> normalizeKey ''ctrl+n''"
proof -
  have x: "trim (toLowerCase ''ctrl+k ctrl+n'') = ''ctrl+k ctrl+n''"
    by (simp add: normalize_eval)
  have y: "trim (toLowerCase ''ctrl+n'') = ''ctrl+n''"
    by (simp add: normalize_eval)
  have s: "map normalizeSingleKey (split_on CHR '' '' ''ctrl+k ctrl+n'') = [''ctrl+k'', ''ctrl+n'']"
    by (simp add: normalize_eval)
  show ?thesis
    using chord_order_kept [of "''ctrl+k ctrl+n''" "''ctrl+n''"] unfolding x y s by simp
qed

subsection \<open>Case and surrounding white space\<close>

lemma normalizeKey_toLowerCase: "normalizeKey (toLowerCase x) = normalizeKey x"
  by (simp add: normalizeKey_def toLowerCase_idem)

lemma normalizeKey_trim: "normalizeKey (trim x) = normalizeKey x"
  by (simp add: normalizeKey_def trim_toLowerCase [symmetric] trim_idem)

subsection \<open>Idempotence\<close>

lemma toLowerCase_space: "toLowerCase '' '' = '' ''"
  by (simp add: toLowerCase_def lowerChar_def upperChars_def lowerChars_def)

lemma cons_head_map: "map (map f) (cons_head x ps) = cons_head (f x) (map (map f) ps)"
  by (cases ps) simp_all

lemma split_where_map:
  "split_where sep (map f s) = map (map f) (split_where (\<lambda>x. sep (f x)) s)"
  by (induction s) (simp_all add: cons_head_map)

lemma split_plus_toLowerCase:
  "split_on CHR ''+'' (toLowerCase s) = map toLowerCase (split_on CHR ''+'' s)"
  using split_where_map [of "\<lambda>x. x = CHR ''+''" lowerChar s]
  by (simp add: split_on_def toLowerCase_def lowerChar_eq_plus)

lemma keyParts_eq: "keyParts p = map (\<lambda>q. toLowerCase (trim q)) (split_on CHR ''+'' p)"
proof -
  have "keyParts p = map trim (split_on CHR ''+'' (toLowerCase p))"
    using map_trim_split_trim [of "CHR ''+''" "toLowerCase p"] space_ws(2)
    by (simp add: keyParts_def)
  then show ?thesis
    by (simp add: split_plus_toLowerCase trim_toLowerCase comp_def)
qed

lemma keyParts_no_empty:
  assumes "\<not> hasEmptyKey p"
  shows "[] \<notin> set (keyParts p)"
proof -
  have "\<forall>q\<in>set (split_on CHR ''+'' p). trim q \<noteq> []"
    using assms by (auto simp: hasEmptyKey_def Let_def list_ex_iff)
  then have "\<forall>q\<in>set (split_on CHR ''+'' p). toLowerCase (trim q) \<noteq> []"
    by (simp add: toLowerCase_Nil_iff)
  then show ?thesis unfolding keyParts_eq by (simp add: image_iff) metis
qed

lemma normalizeSingleKey_not_Nil:
  assumes "\<not> hasEmptyKey p"
  shows "normalizeSingleKey p \<noteq> []"
proof (cases "length (keyParts p) = 1")
  case True
  have "trim (toLowerCase p) \<noteq> []"
  proof
    assume "trim (toLowerCase p) = []"
    then have "keyParts p = map trim (split_on CHR ''+'' [])"
      by (simp add: keyParts_def)
    also have "\<dots> = [[]]"
      by (simp add: split_on_def trim_def trimStart_def trimEnd_def)
    finally have "keyParts p = [[]]" .
    then show False using keyParts_no_empty [OF assms] by simp
  qed
  then show ?thesis using True by (simp add: normalizeSingleKey_alt)
next
  case False
  let ?L = "canonicalParts (keyParts p)"
  have "?L \<noteq> []"
    using keyParts_not_Nil keyParts_no_empty [OF assms] by (rule canonicalParts_not_Nil)
  moreover have "[] \<notin> set ?L"
    using set_canonicalParts [of "keyParts p"] by blast
  ultimately have "join ''+'' ?L \<noteq> []"
    by (auto simp: join_Nil_iff)
  then show ?thesis using False by (simp add: normalizeSingleKey_alt)
qed

lemma normalizeKey_idem_single:
  assumes "CHR '' '' \<notin> set (trim (toLowerCase x))"
  shows "normalizeKey (normalizeKey x) = normalizeKey x"
proof -
  let ?r = "normalizeSingleKey (trim (toLowerCase x))"
  have r: "normalizeKey x = ?r" using assms by (rule normalizeKey_single)
  have "trim (toLowerCase ?r) = ?r"
    using lowercase_normalizeSingleKey trimmed_normalizeSingleKey
    by (simp add: lowercase_iff trimmed_trim_id)
  moreover have "CHR '' '' \<notin> set ?r"
    using assms by (rule no_space_normalizeSingleKey)
  ultimately have "normalizeKey ?r = normalizeSingleKey ?r"
    by (simp add: normalizeKey_def)
  then show ?thesis using r by (simp add: normalizeSingleKey_idem)
qed

lemma normalizeKey_idem_chord:
  assumes sp: "CHR '' '' \<in> set (trim (toLowerCase x))" and wf: "wellFormed x"
  shows "normalizeKey (normalizeKey x) = normalizeKey x"
proof -
  let ?ps = "map normalizeSingleKey (split_on CHR '' '' (trim (toLowerCase x)))"
  let ?r = "join '' '' ?ps"
  have r: "normalizeKey x = ?r" using sp by (rule normalizeKey_chord)
  have ne: "?ps \<noteq> []" by (simp add: split_on_not_Nil)
  have elems: "q \<noteq> [] \<and> lowercase q \<and> trimmed q" if "q \<in> set ?ps" for q
  proof -
    from that have "q \<in> normalizeSingleKey ` set (split_on CHR '' '' (trim (toLowerCase x)))"
      by simp
    then obtain p where p: "p \<in> set (split_on CHR '' '' (trim (toLowerCase x)))"
      and q: "q = normalizeSingleKey p"
      by blast
    have "\<not> hasEmptyKey p" using wf p by (auto simp: wellFormed_def list_all_iff)
    then show ?thesis
      unfolding q
      using normalizeSingleKey_not_Nil [of p] lowercase_normalizeSingleKey [of p]
        trimmed_normalizeSingleKey [of p]
      by blast
  qed
  have m: "map toLowerCase ?ps = ?ps"
  proof (rule map_idI)
    fix q
    assume "q \<in> set ?ps"
    then have "lowercase q" using elems by blast
    then show "toLowerCase q = q" by (simp only: lowercase_iff)
  qed
  have low: "toLowerCase ?r = ?r"
    by (simp only: toLowerCase_join toLowerCase_space m)
  have "hd ?ps \<in> set ?ps" "last ?ps \<in> set ?ps"
    using ne by (rule hd_in_set, rule last_in_set)
  then have "trimmed ?r" using ne elems by (intro trimmed_join) blast+
  then have "trim ?r = ?r" by (rule trimmed_trim_id)
  then have tl: "trim (toLowerCase ?r) = ?r" by (simp only: low)
  have "CHR '' '' \<in> set ?r" using space_in_normalizeKey_chord [OF sp] by (simp only: r)
  then have "CHR '' '' \<in> set (trim (toLowerCase ?r))" by (simp only: tl)
  then have "normalizeKey ?r =
      join '' '' (map normalizeSingleKey (split_on CHR '' '' (trim (toLowerCase ?r))))"
    by (rule normalizeKey_chord)
  then have "normalizeKey ?r = join '' '' (map normalizeSingleKey (split_on CHR '' '' ?r))"
    by (simp only: tl)
  also have "split_on CHR '' '' ?r = ?ps"
    using split_normalizeKey_chord [OF sp] by (simp only: r)
  also have "map normalizeSingleKey ?ps = ?ps"
    by (simp add: normalizeSingleKey_idem)
  finally show ?thesis by (simp only: r)
qed

lemma checkChords_format: "checkChords chords = None \<Longrightarrow> list_all (\<lambda>c. \<not> hasEmptyKey c) chords"
  by (induction chords) (auto simp: Let_def split: if_splits)

lemma accepted_wellFormed:
  assumes "validateKeybinding (Some v) currentBinding bs = None"
  shows "wellFormed v"
proof -
  have "checkChords (split_on CHR '' '' (trim (toLowerCase v))) = None"
    using assms
    by (auto simp: validateKeybinding_def Let_def split: if_splits option.splits)
  then show ?thesis unfolding wellFormed_def by (rule checkChords_format)
qed

text \<open>
  Claim C8. Normalization is idempotent on every well-formed key-combo string, that is
  on every string that passes the format test of the validation (no empty key between
  plus signs in any sub-combo of the chord).
\<close>

theorem normalizeKey_idempotent:
  "wellFormed x \<Longrightarrow> normalizeKey (normalizeKey x) = normalizeKey x"
  using normalizeKey_idem_single normalizeKey_idem_chord by blast

text \<open>The chord \<open>Shift+Ctrl+K ctrl+s\<close> is well formed, and normalizing it twice changes nothing.\<close>

theorem normalizeKey_idempotent_witness:
  "wellFormed ''Shift+Ctrl+K ctrl+s'' \<and>
   normalizeKey ''Shift+Ctrl+K ctrl+s'' = ''ctrl+shift+k ctrl+s'' \<and>
   normalizeKey (normalizeKey ''Shift+Ctrl+K ctrl+s'') = normalizeKey ''Shift+Ctrl+K ctrl+s''"
proof -
  have wf: "wellFormed ''Shift+Ctrl+K ctrl+s''"
    by (simp add: wellFormed_def hasEmptyKey_def normalize_eval)
  have n: "normalizeKey ''Shift+Ctrl+K ctrl+s'' = ''ctrl+shift+k ctrl+s''"
    by (simp add: normalize_eval)
  show ?thesis using wf n normalizeKey_idempotent [OF wf] by simp
qed

text \<open>Outside the well-formed strings idempotence can fail: a sub-combo that ends in a plus sign.\<close>

lemma normalizeKey_not_idempotent_malformed:
  "\<not> wellFormed ''a+ b'' \<and> normalizeKey ''a+ b'' = '' b'' \<and> normalizeKey '' b'' = ''b''"
  by (simp add: wellFormed_def hasEmptyKey_def normalize_eval)

subsection \<open>White space inside a sub-combo\<close>

lemma normalizeSingleKey_normalized:
  "normalizeSingleKey (trim (toLowerCase k)) = normalizeSingleKey k"
proof -
  have "trim (toLowerCase (trim (toLowerCase k))) = trim (toLowerCase k)"
    by (simp add: trim_toLowerCase toLowerCase_idem trim_idem)
  then show ?thesis by (simp add: normalizeSingleKey_def)
qed

lemma normalizeSingleKey_trimmed_parts:
  "normalizeSingleKey (join ''+'' (map trim (split_on CHR ''+'' x))) = normalizeSingleKey x"
proof -
  let ?ps = "map trim (split_on CHR ''+'' x)"
  let ?y = "join ''+'' ?ps"
  have ne: "?ps \<noteq> []" by (simp add: split_on_not_Nil)
  have np: "\<forall>p\<in>set ?ps. CHR ''+'' \<notin> set p"
  proof
    fix p
    assume "p \<in> set ?ps"
    then obtain q where q: "q \<in> set (split_on CHR ''+'' x)" and p: "p = trim q"
      by auto
    have "CHR ''+'' \<notin> set q" using q by (rule split_on_no_sep)
    then show "CHR ''+'' \<notin> set p" using set_trim [of q] p by blast
  qed
  have sp: "split_on CHR ''+'' ?y = ?ps" using ne np by (rule split_on_join)
  have kp: "keyParts ?y = keyParts x"
    unfolding keyParts_eq sp by (simp add: trim_idem)
  show ?thesis
  proof (cases "length (keyParts x) = 1")
    case True
    then have "length (split_on CHR ''+'' x) = 1" by (simp add: keyParts_eq)
    then have "CHR ''+'' \<notin> set x" by (rule iffD1 [OF length_split_on_one])
    then have "split_on CHR ''+'' x = [x]" by (rule split_on_single)
    then have "?y = trim x" by simp
    then have "trim (toLowerCase ?y) = trim (toLowerCase x)"
      by (simp add: trim_toLowerCase trim_idem)
    then show ?thesis using True kp by (simp add: normalizeSingleKey_alt)
  next
    case False
    then show ?thesis using kp by (simp add: normalizeSingleKey_alt)
  qed
qed

lemma normalizeKey_no_space:
  assumes "CHR '' '' \<notin> set x"
  shows "normalizeKey x = normalizeSingleKey x"
proof -
  have "CHR '' '' \<notin> set (toLowerCase x)" using assms by (simp add: space_in_toLowerCase)
  then have "CHR '' '' \<notin> set (trim (toLowerCase x))"
    using set_trim [of "toLowerCase x"] by blast
  then have "normalizeKey x = normalizeSingleKey (trim (toLowerCase x))"
    by (rule normalizeKey_single)
  then show ?thesis by (simp only: normalizeSingleKey_normalized)
qed

lemma normalizeKey_trimmed_parts:
  assumes "CHR '' '' \<notin> set x"
  shows "normalizeKey (join ''+'' (map trim (split_on CHR ''+'' x))) = normalizeKey x"
proof -
  let ?ps = "map trim (split_on CHR ''+'' x)"
  have sub: "set p \<subseteq> set x" if "p \<in> set ?ps" for p
  proof -
    from that obtain q where q: "q \<in> set (split_on CHR ''+'' x)" and p: "p = trim q"
      by auto
    have "set q \<subseteq> set x" using q by (rule split_on_subset)
    then show ?thesis using set_trim [of q] p by blast
  qed
  have "CHR '' '' \<notin> set (join ''+'' ?ps)"
  proof
    assume "CHR '' '' \<in> set (join ''+'' ?ps)"
    then have "CHR '' '' \<in> set ''+'' \<union> (\<Union>p\<in>set ?ps. set p)"
      using set_join [of "''+''" ?ps] by blast
    then obtain p where "p \<in> set ?ps" "CHR '' '' \<in> set p" by auto
    then have "CHR '' '' \<in> set x" using sub by blast
    then show False using assms by simp
  qed
  then have "normalizeKey (join ''+'' ?ps) = normalizeSingleKey (join ''+'' ?ps)"
    by (rule normalizeKey_no_space)
  then show ?thesis
    using normalizeKey_no_space [OF assms] by (simp only: normalizeSingleKey_trimmed_parts)
qed

text \<open>
  Claim C3, as amended. Normalization ignores case and white space around the whole
  string: \<open>CTRL+C\<close> and \<open> ctrl+c \<close> both give \<open>ctrl+c\<close>, and lowering or trimming the
  input never changes the result. Inside a string without a space character the parts
  split on the plus sign are trimmed one by one: replacing every part by its trimmed
  form changes nothing (tabs, line feeds and other white space around the plus sign
  disappear). A space character separates the sub-combos of a chord, so \<open> ctrl + c \<close> is
  the chord of \<open>ctrl\<close>, the empty combination and \<open>c\<close>.
\<close>

theorem normalizeKey_case_whitespace:
  "normalizeKey ''CTRL+C'' = ''ctrl+c'' \<and>
   normalizeKey '' ctrl+c '' = ''ctrl+c'' \<and>
   normalizeKey (toLowerCase x) = normalizeKey x \<and>
   normalizeKey (trim x) = normalizeKey x \<and>
   (CHR '' '' \<notin> set x \<longrightarrow>
      normalizeKey (join ''+'' (map trim (split_on CHR ''+'' x))) = normalizeKey x) \<and>
   normalizeKey (''ctrl'' @ [CHR 0x09] @ ''+'' @ [CHR 0x09] @ ''c'') = ''ctrl+c'' \<and>
   normalizeKey '' ctrl + c '' = ''ctrl  c''"
proof (intro conjI impI)
  show "normalizeKey ''CTRL+C'' = ''ctrl+c''" by (simp add: normalize_eval)
  show "normalizeKey '' ctrl+c '' = ''ctrl+c''" by (simp add: normalize_eval)
  show "normalizeKey (toLowerCase x) = normalizeKey x" by (rule normalizeKey_toLowerCase)
  show "normalizeKey (trim x) = normalizeKey x" by (rule normalizeKey_trim)
  show "normalizeKey (''ctrl'' @ [CHR 0x09] @ ''+'' @ [CHR 0x09] @ ''c'') = ''ctrl+c''"
    by (simp add: normalize_eval)
  show "normalizeKey '' ctrl + c '' = ''ctrl  c''" by (simp add: normalize_eval)
next
  assume "CHR '' '' \<notin> set x"
  then show "normalizeKey (join ''+'' (map trim (split_on CHR ''+'' x))) = normalizeKey x"
    by (rule normalizeKey_trimmed_parts)
qed

text \<open>
  A line feed before the plus sign and a no-break space after it: the string has no
  space character, its trimmed parts join to \<open>Ctrl+c\<close>, and it normalizes to \<open>ctrl+c\<close>.
\<close>

theorem normalizeKey_case_whitespace_witness:
  "CHR '' '' \<notin> set (''Ctrl'' @ [CHR 0x0A] @ ''+'' @ [CHR 0xA0] @ ''c'') \<and>
   join ''+'' (map trim (split_on CHR ''+'' (''Ctrl'' @ [CHR 0x0A] @ ''+'' @ [CHR 0xA0] @ ''c''))) =
     ''Ctrl+c'' \<and>
   normalizeKey (''Ctrl'' @ [CHR 0x0A] @ ''+'' @ [CHR 0xA0] @ ''c'') = ''ctrl+c''"
proof -
  let ?x = "''Ctrl'' @ [CHR 0x0A] @ ''+'' @ [CHR 0xA0] @ ''c''"
  have h: "CHR '' '' \<notin> set ?x" by simp
  have j: "join ''+'' (map trim (split_on CHR ''+'' ?x)) = ''Ctrl+c''"
    by (simp add: split_on_def trim_def trimStart_def trimEnd_def isWhiteSpace_def)
  have n: "normalizeKey ''Ctrl+c'' = ''ctrl+c''" by (simp add: normalize_eval)
  have "normalizeKey (join ''+'' (map trim (split_on CHR ''+'' ?x))) = normalizeKey ?x"
    using h
    by (rule normalizeKey_case_whitespace [of ?x, THEN conjunct2, THEN conjunct2,
          THEN conjunct2, THEN conjunct2, THEN conjunct1, THEN mp])
  then have "normalizeKey ?x = ''ctrl+c''" unfolding j n by simp
  then show ?thesis using h j by blast
qed

text \<open>
  Claim C3 as stated fails: with spaces around the plus sign the result is not \<open>ctrl+c\<close>.
\<close>

theorem normalizeKey_spaces_around_plus_counterexample:
  "\<not> (normalizeKey ''CTRL+C'' = normalizeKey '' ctrl + c '' \<and>
      normalizeKey '' ctrl + c '' = ''ctrl+c'')"
  by (simp add: normalize_eval)

subsection \<open>Modifier order\<close>

lemma modifierOrder_clean:
  assumes "m \<in> set modifierOrder"
  shows "m \<noteq> []" "lowercase m" "trimmed m" "CHR ''+'' \<notin> set m" "CHR '' '' \<notin> set m"
    "isModifierKey m"
proof -
  have m: "m = ''ctrl'' \<or> m = ''cmd'' \<or> m = ''alt'' \<or> m = ''shift'' \<or> m = ''meta'' \<or> m = ''win''"
    using assms by (simp add: modifierOrder_def)
  show "m \<noteq> []" using m by auto
  show "lowercase m"
    using m by (elim disjE) (simp_all add: lowercase_def lowerChar_def upperChars_def lowerChars_def)
  show "trimmed m"
    using m by (elim disjE) (simp_all add: trimmed_def isWhiteSpace_def)
  show "CHR ''+'' \<notin> set m" using m by auto
  show "CHR '' '' \<notin> set m" using m by auto
  show "isModifierKey m"
    using m by (elim disjE)
      (simp_all add: isModifierKey_def modifiers_def toLowerCase_def lowerChar_def upperChars_def lowerChars_def)
qed

lemma inj_on_modifierOrder: "inj_on (indexOf modifierOrder) (set modifierOrder)"
  by (simp add: inj_on_def modifierOrder_def indexOf_def)

lemma canonicalParts_permutation:
  assumes perm: "mset parts = mset (ms @ [mainKey])"
    and ms: "set ms \<subseteq> set modifierOrder"
    and main: "mainKey \<noteq> []" "\<not> isModifierKey mainKey"
  shows "canonicalParts parts = sort_key (indexOf modifierOrder) ms @ [mainKey]"
proof -
  have mods: "\<forall>m\<in>set ms. isModifierKey m"
    using ms modifierOrder_clean(6) by blast
  have "mset (filter isModifierKey parts) = filter_mset isModifierKey (mset (ms @ [mainKey]))"
    using perm by simp
  also have "\<dots> = mset ms"
    using mods main(2) by (simp add: filter_mset_eq_conv)
  finally have fm: "mset (filter isModifierKey parts) = mset ms" .
  have "mset (filter (\<lambda>p. \<not> isModifierKey p) parts) =
          filter_mset (\<lambda>p. \<not> isModifierKey p) (mset (ms @ [mainKey]))"
    using perm by simp
  also have "\<dots> = {#mainKey#}"
    using mods main(2) by (simp add: filter_mset_eq_conv)
  finally have "mset (filter (\<lambda>p. \<not> isModifierKey p) parts) = mset [mainKey]" by simp
  then have rest: "filter (\<lambda>p. \<not> isModifierKey p) parts = [mainKey]"
    by (metis mset_single_iff_right mset.simps(1) mset.simps(2) mset_zero_iff add_mset_eq_single)
  have "set (filter isModifierKey parts) = set ms"
    using fm by (rule mset_eq_setD)
  then have "inj_on (indexOf modifierOrder) (set (filter isModifierKey parts))"
    using ms inj_on_modifierOrder by (metis inj_on_subset)
  moreover have "mset (filter isModifierKey parts) = mset (sort_key (indexOf modifierOrder) ms)"
    using fm by simp
  moreover have "sorted (map (indexOf modifierOrder) (sort_key (indexOf modifierOrder) ms))"
    by simp
  ultimately have "sort_key (indexOf modifierOrder) (filter isModifierKey parts) =
      sort_key (indexOf modifierOrder) ms"
    by (intro sort_key_inj_key_eq)
  then show ?thesis using rest main(1) by (simp add: canonicalParts_def)
qed


lemma normalizeKey_joined_parts:
  assumes perm: "mset parts = mset (ms @ [mainKey])"
    and ms: "set ms \<subseteq> set modifierOrder"
    and main: "mainKey \<noteq> []" "lowercase mainKey" "trimmed mainKey"
      "CHR ''+'' \<notin> set mainKey" "CHR '' '' \<notin> set mainKey" "\<not> isModifierKey mainKey"
  shows "normalizeKey (join ''+'' parts) =
           join ''+'' (sort_key (indexOf modifierOrder) ms @ [mainKey])"
proof -
  let ?x = "join ''+'' parts"
  have sp: "set parts = set ms \<union> {mainKey}"
    using mset_eq_setD [OF perm] by simp
  have clean: "\<forall>p\<in>set parts. p \<noteq> [] \<and> lowercase p \<and> trimmed p \<and> CHR ''+'' \<notin> set p"
    using sp ms main modifierOrder_clean by blast
  have nosp: "\<forall>p\<in>set parts. CHR '' '' \<notin> set p"
    using sp ms main modifierOrder_clean by blast
  have ne: "parts \<noteq> []" using sp by auto
  have t: "trim (toLowerCase ?x) = ?x" and kp: "keyParts ?x = parts"
    using keyParts_join [OF ne clean] by simp_all
  have "CHR '' '' \<notin> set ?x"
    using set_join [of "''+''" parts] nosp by auto
  then have "CHR '' '' \<notin> set (trim (toLowerCase ?x))" by (simp add: t)
  then have "normalizeKey ?x = normalizeSingleKey (trim (toLowerCase ?x))"
    by (rule normalizeKey_single)
  then have nk: "normalizeKey ?x = normalizeSingleKey ?x" by (simp add: t)
  have cp: "canonicalParts parts = sort_key (indexOf modifierOrder) ms @ [mainKey]"
    using perm ms main(1) main(6) by (rule canonicalParts_permutation)
  show ?thesis
  proof (cases "length parts = 1")
    case True
    then have "size (mset (ms @ [mainKey])) = 1" using perm by (metis size_mset)
    then have "ms = []" by simp
    then have "parts = [mainKey]" using perm by simp
    then show ?thesis using nk t kp \<open>ms = []\<close> by (simp add: normalizeSingleKey_alt)
  next
    case False
    then show ?thesis using nk kp cp by (simp add: normalizeSingleKey_alt)
  qed
qed

text \<open>
  Claim C6, as amended. Within one sub-combo whose modifiers are among \<open>ctrl\<close>, \<open>cmd\<close>,
  \<open>alt\<close>, \<open>shift\<close>, \<open>meta\<close> and \<open>win\<close>, the order of the parts does not matter: every
  arrangement of the same modifiers and the same main key normalizes to the modifiers in
  the order of \<open>modifierOrder\<close> followed by the main key. In particular \<open>shift+ctrl+v\<close> and
  \<open>ctrl+shift+v\<close> both give \<open>ctrl+shift+v\<close>.
\<close>

theorem modifier_order_canonical:
  assumes "mset parts = mset (ms @ [mainKey])"
    and "set ms \<subseteq> set modifierOrder"
    and "mainKey \<noteq> []" "lowercase mainKey" "trimmed mainKey"
      "CHR ''+'' \<notin> set mainKey" "CHR '' '' \<notin> set mainKey" "\<not> isModifierKey mainKey"
  shows "normalizeKey (join ''+'' parts) =
           join ''+'' (sort_key (indexOf modifierOrder) ms @ [mainKey]) \<and>
         sorted (map (indexOf modifierOrder) (sort_key (indexOf modifierOrder) ms)) \<and>
         normalizeKey ''shift+ctrl+v'' = ''ctrl+shift+v'' \<and>
         normalizeKey ''ctrl+shift+v'' = ''ctrl+shift+v''"
proof (intro conjI)
  show "normalizeKey (join ''+'' parts) =
      join ''+'' (sort_key (indexOf modifierOrder) ms @ [mainKey])"
    using assms by (rule normalizeKey_joined_parts)
  show "sorted (map (indexOf modifierOrder) (sort_key (indexOf modifierOrder) ms))"
    by simp
  show "normalizeKey ''shift+ctrl+v'' = ''ctrl+shift+v''" by (simp add: normalize_eval)
  show "normalizeKey ''ctrl+shift+v'' = ''ctrl+shift+v''" by (simp add: normalize_eval)
qed

text \<open>The parts \<open>shift\<close>, \<open>v\<close>, \<open>alt\<close>, \<open>ctrl\<close> in this order give \<open>ctrl+alt+shift+v\<close>.\<close>

theorem modifier_order_canonical_witness:
  "mset [''shift'', ''v'', ''alt'', ''ctrl''] = mset ([''alt'', ''ctrl'', ''shift''] @ [''v'']) \<and>
   set [''alt'', ''ctrl'', ''shift''] \<subseteq> set modifierOrder \<and>
   ''v'' \<noteq> [] \<and> lowercase ''v'' \<and> trimmed ''v'' \<and> CHR ''+'' \<notin> set ''v'' \<and>
   CHR '' '' \<notin> set ''v'' \<and> \<not> isModifierKey ''v'' \<and>
   normalizeKey ''shift+v+alt+ctrl'' = ''ctrl+alt+shift+v''"
proof -
  have h1: "mset [''shift'', ''v'', ''alt'', ''ctrl''] = mset ([''alt'', ''ctrl'', ''shift''] @ [''v''])"
    by simp
  have h2: "set [''alt'', ''ctrl'', ''shift''] \<subseteq> set modifierOrder"
    by (simp add: modifierOrder_def)
  have h3: "''v'' \<noteq> []" by simp
  have h4: "lowercase ''v''"
    by (simp add: lowercase_def lowerChar_def upperChars_def lowerChars_def)
  have h5: "trimmed ''v''" by (simp add: trimmed_def isWhiteSpace_def)
  have h6: "CHR ''+'' \<notin> set ''v''" by simp
  have h7: "CHR '' '' \<notin> set ''v''" by simp
  have h8: "\<not> isModifierKey ''v''"
    by (simp add: isModifierKey_def modifiers_def toLowerCase_def lowerChar_def upperChars_def lowerChars_def)
  have j: "join ''+'' [''shift'', ''v'', ''alt'', ''ctrl''] = ''shift+v+alt+ctrl''" by simp
  have s: "sort_key (indexOf modifierOrder) [''alt'', ''ctrl'', ''shift''] = [''ctrl'', ''alt'', ''shift'']"
    by (simp add: indexOf_def modifierOrder_def)
  have "normalizeKey (join ''+'' [''shift'', ''v'', ''alt'', ''ctrl'']) =
      join ''+'' (sort_key (indexOf modifierOrder) [''alt'', ''ctrl'', ''shift''] @ [''v''])"
    using modifier_order_canonical [OF h1 h2 h3 h4 h5 h6 h7 h8] by (rule conjunct1)
  then have "normalizeKey ''shift+v+alt+ctrl'' = ''ctrl+alt+shift+v''"
    unfolding j s by simp
  then show ?thesis using h1 h2 h3 h4 h5 h6 h7 h8 by blast
qed

text \<open>
  Claim C6 as stated fails for the synonyms: \<open>option\<close> and \<open>control\<close> are modifiers with no
  place in \<open>modifierOrder\<close>, and the two arrangements of the same parts stay different.
\<close>

theorem modifier_synonyms_counterexample:
  "mset [''option'', ''control'', ''v''] = mset [''control'', ''option'', ''v''] \<and>
   isModifierKey ''option'' \<and> isModifierKey ''control'' \<and>
   normalizeKey ''option+control+v'' \<noteq> normalizeKey ''control+option+v''"
proof (intro conjI)
  show "mset [''option'', ''control'', ''v''] = mset [''control'', ''option'', ''v'']"
    by simp
  show "isModifierKey ''option''"
    by (simp add: isModifierKey_def modifiers_def toLowerCase_def lowerChar_def upperChars_def lowerChars_def)
  show "isModifierKey ''control''"
    by (simp add: isModifierKey_def modifiers_def toLowerCase_def lowerChar_def upperChars_def lowerChars_def)
  show "normalizeKey ''option+control+v'' \<noteq> normalizeKey ''control+option+v''"
    by (simp add: normalize_eval)
qed

text \<open>A synonym sorts before every name of \<open>modifierOrder\<close>, whatever modifier it stands for.\<close>

lemma synonym_sorts_first:
  "normalizeKey ''ctrl+command+v'' = ''command+ctrl+v'' \<and>
   normalizeKey ''shift+control+v'' = ''control+shift+v''"
  by (simp add: normalize_eval)

section \<open>Properties of the scan\<close>

subsection \<open>The example installation, evaluated\<close>

lemma example_keys:
  "normalizeKey ''ctrl+k ctrl+s'' = ''ctrl+k ctrl+s''"
  "normalizeKey ''ctrl+K ctrl+S'' = ''ctrl+k ctrl+s''"
  "normalizeKey ''ctrl+0'' = ''ctrl+0''"
  "normalizeKey ''Ctrl+0'' = ''ctrl+0''"
  "normalizeKey ''ctrl+='' = ''ctrl+=''"
  "normalizeKey ''ctrl+enter'' = ''ctrl+enter''"
  by (simp_all add: normalize_eval)

lemma collect_example:
  "collectAllKeybindings Linux [extensionX, extensionY, extensionZ] = exampleBindings"
  by (simp add: collectAllKeybindings_def extensionX_def extensionY_def extensionZ_def
      contribution_def bindingsOfEntry_def keysToProcess_def extensionNameOf_def example_keys
      exampleBindings_def binding_def)

lemma collation_example:
  "collationCompare ''ctrl+='' ''ctrl+0'' = -1"
  "collationCompare ''ctrl+0'' ''ctrl+='' = 1"
  "collationCompare ''ctrl+0'' ''ctrl+k ctrl+s'' = -1"
  "collationCompare ''ctrl+k ctrl+s'' ''ctrl+0'' = 1"
  "collationCompare ''ctrl+='' ''ctrl+k ctrl+s'' = -1"
  "collationCompare ''ctrl+k ctrl+s'' ''ctrl+='' = 1"
  by (simp_all add: collationCompare_def collationRank_def collationOrder_def indexOf_def)

lemma findConflicts_example:
  "findConflicts collationCompare exampleBindings {} = [zoomGroup, resetGroup, saveGroup]"
  by (simp add: findConflicts_def groupByKey_def exampleBindings_def binding_def isConflict_def
      array_sort_def collation_example zoomGroup_def resetGroup_def saveGroup_def)

lemma findConflicts_override_example:
  "findConflicts collationCompare exampleBindings {''x.save''} = [zoomGroup, resetGroup]"
  by (simp add: findConflicts_def groupByKey_def exampleBindings_def binding_def isConflict_def
      array_sort_def collation_example zoomGroup_def resetGroup_def)

lemma disabled_example: "getUserDisabledCommands (Entries [removeSave]) = {''x.save''}"
  by (simp add: getUserDisabledCommands_def addDisabled_def removeSave_def)

lemma scan_example:
  "fst (scanConflicts exampleHost newScanner) = [zoomGroup, resetGroup, saveGroup]"
  by (simp add: scanConflicts_def exampleHost_def newScanner_def collect_example
      getUserDisabledCommands_def findConflicts_example)

lemma scan_override_example:
  "fst (scanConflicts overrideHost newScanner) = [zoomGroup, resetGroup]"
  by (simp add: scanConflicts_def overrideHost_def exampleHost_def newScanner_def collect_example
      disabled_example findConflicts_override_example)

subsection \<open>Grouping by key\<close>

text \<open>The bindings stored under a key of the grouping, none if the key is absent.\<close>

lemma foldl_skip:
  "foldl (\<lambda>m b. if P b then m else f m b) acc bs = foldl f acc (filter (\<lambda>b. \<not> P b) bs)"
  by (induction bs arbitrary: acc) simp_all

lemma groupByKey_live:
  "groupByKey bs disabled = foldl (\<lambda>m b. pushBinding b m) [] (liveBindings bs disabled)"
  unfolding groupByKey_def liveBindings_def by (rule foldl_skip)

lemma keys_pushBinding: "fst ` set (pushBinding b m) = insert (key b) (fst ` set m)"
proof (induction m)
  case Nil
  show ?case by simp
next
  case (Cons e m)
  obtain k bs where e: "e = (k, bs)" by (cases e)
  show ?case
    unfolding e by (cases "k = key b") (simp_all add: Cons insert_commute)
qed

lemma distinct_pushBinding:
  "distinct (map fst m) \<Longrightarrow> distinct (map fst (pushBinding b m))"
proof (induction m)
  case Nil
  then show ?case by simp
next
  case (Cons e m)
  obtain k bs where e: "e = (k, bs)" by (cases e)
  show ?case using Cons keys_pushBinding [of b m] by (auto simp: e)
qed

lemma map_of_pushBinding:
  "map_of (pushBinding b m) k =
     (if k = key b then Some ((case map_of m k of None \<Rightarrow> [] | Some bs \<Rightarrow> bs) @ [b])
      else map_of m k)"
  by (induction m) auto

lemma keys_grouping:
  "fst ` set (foldl (\<lambda>m b. pushBinding b m) m bs) = fst ` set m \<union> key ` set bs"
  by (induction bs arbitrary: m) (auto simp: keys_pushBinding)

lemma distinct_grouping:
  "distinct (map fst m) \<Longrightarrow> distinct (map fst (foldl (\<lambda>m b. pushBinding b m) m bs))"
  by (induction bs arbitrary: m) (simp_all add: distinct_pushBinding)

lemma map_of_grouping:
  "(case map_of (foldl (\<lambda>m b. pushBinding b m) m bs) k of None \<Rightarrow> [] | Some l \<Rightarrow> l) =
     (case map_of m k of None \<Rightarrow> [] | Some l \<Rightarrow> l) @ filter (\<lambda>b. key b = k) bs"
proof (induction bs arbitrary: m)
  case Nil
  show ?case by simp
next
  case (Cons b bs)
  show ?case
    unfolding foldl_Cons Cons.IH [of "pushBinding b m"]
    by (simp add: map_of_pushBinding)
qed

lemma groupByKey_entry:
  "(k, l) \<in> set (groupByKey bs disabled) \<longleftrightarrow>
     l = filter (\<lambda>b. key b = k) (liveBindings bs disabled) \<and> l \<noteq> []"
proof -
  let ?live = "liveBindings bs disabled"
  let ?g = "groupByKey bs disabled"
  have d: "distinct (map fst ?g)"
    unfolding groupByKey_live by (rule distinct_grouping) simp
  have m: "(case map_of ?g k of None \<Rightarrow> [] | Some l \<Rightarrow> l) = filter (\<lambda>b. key b = k) ?live"
    unfolding groupByKey_live using map_of_grouping [of "[]" ?live k] by simp
  have keys: "fst ` set ?g = key ` set ?live"
    unfolding groupByKey_live using keys_grouping [of "[]" ?live] by simp
  show ?thesis
  proof
    assume in_g: "(k, l) \<in> set ?g"
    then have "map_of ?g k = Some l" using d by simp
    then have l: "l = filter (\<lambda>b. key b = k) ?live" using m by simp
    have "k \<in> key ` set ?live" using in_g keys by force
    then have "filter (\<lambda>b. key b = k) ?live \<noteq> []"
      by (auto simp: filter_empty_conv)
    then show "l = filter (\<lambda>b. key b = k) ?live \<and> l \<noteq> []" using l by simp
  next
    assume l: "l = filter (\<lambda>b. key b = k) ?live \<and> l \<noteq> []"
    then have "k \<in> key ` set ?live" by (auto simp: filter_empty_conv)
    then have "k \<in> fst ` set ?g" using keys by simp
    then obtain l' where l': "(k, l') \<in> set ?g" by auto
    then have "map_of ?g k = Some l'" using d by simp
    then have "l' = filter (\<lambda>b. key b = k) ?live" using m by simp
    then show "(k, l) \<in> set ?g" using l l' by simp
  qed
qed

subsection \<open>The sort\<close>

lemma set_insert_by: "set (insert_by compare x xs) = insert x (set xs)"
  by (induction xs) auto

lemma set_array_sort: "set (array_sort compare xs) = set xs"
  by (induction xs) (simp_all add: array_sort_def set_insert_by)

lemma sorted_insert_by:
  assumes total: "\<And>a b. compare a b \<le> 0 \<or> compare b a \<le> 0"
    and trans: "\<And>a b c. compare a b \<le> 0 \<Longrightarrow> compare b c \<le> 0 \<Longrightarrow> compare a c \<le> 0"
    and "sorted_wrt (\<lambda>a b. compare a b \<le> 0) xs"
  shows "sorted_wrt (\<lambda>a b. compare a b \<le> 0) (insert_by compare x xs)"
  using assms(3)
proof (induction xs)
  case Nil
  show ?case by simp
next
  case (Cons y ys)
  show ?case
  proof (cases "compare x y \<le> 0")
    case True
    then have "\<forall>z\<in>set ys. compare x z \<le> 0"
      using Cons.prems trans by auto
    then show ?thesis using True Cons.prems by simp
  next
    case False
    then have "compare y x \<le> 0" using total by blast
    then show ?thesis using False Cons by (auto simp: set_insert_by)
  qed
qed

lemma sorted_array_sort:
  assumes "\<And>a b. compare a b \<le> 0 \<or> compare b a \<le> 0"
    and "\<And>a b c. compare a b \<le> 0 \<Longrightarrow> compare b c \<le> 0 \<Longrightarrow> compare a c \<le> 0"
  shows "sorted_wrt (\<lambda>a b. compare a b \<le> 0) (array_sort compare xs)"
proof (induction xs)
  case Nil
  show ?case by (simp add: array_sort_def)
next
  case (Cons x xs)
  have "array_sort compare (x # xs) = insert_by compare x (array_sort compare xs)"
    by (simp add: array_sort_def)
  then show ?case using sorted_insert_by [OF assms Cons] by simp
qed

subsection \<open>The groups that a scan reports\<close>

lemma isConflict_iff:
  "isConflict l \<longleftrightarrow> 2 \<le> length l \<and> 2 \<le> card (extensionId ` set l)"
  by (auto simp: isConflict_def length_remdups_card_conv)

lemma findConflicts_member:
  "g \<in> set (findConflicts compare bs disabled) \<longleftrightarrow>
     bindings g = filter (\<lambda>b. key b = group_key g) (liveBindings bs disabled) \<and>
     isConflict (bindings g)"
proof -
  have "g \<in> set (findConflicts compare bs disabled) \<longleftrightarrow>
      (\<exists>k l. (k, l) \<in> set (groupByKey bs disabled) \<and> isConflict l \<and>
             g = \<lparr>group_key = k, bindings = l\<rparr>)"
    by (auto simp: findConflicts_def set_array_sort Let_def)
  also have "\<dots> \<longleftrightarrow> (\<exists>k l. l = filter (\<lambda>b. key b = k) (liveBindings bs disabled) \<and> l \<noteq> [] \<and>
      isConflict l \<and> g = \<lparr>group_key = k, bindings = l\<rparr>)"
    by (simp add: groupByKey_entry conj_assoc)
  also have "\<dots> \<longleftrightarrow> bindings g = filter (\<lambda>b. key b = group_key g) (liveBindings bs disabled) \<and>
      isConflict (bindings g)"
  proof
    assume "\<exists>k l. l = filter (\<lambda>b. key b = k) (liveBindings bs disabled) \<and> l \<noteq> [] \<and>
      isConflict l \<and> g = \<lparr>group_key = k, bindings = l\<rparr>"
    then show "bindings g = filter (\<lambda>b. key b = group_key g) (liveBindings bs disabled) \<and>
      isConflict (bindings g)" by auto
  next
    assume a: "bindings g = filter (\<lambda>b. key b = group_key g) (liveBindings bs disabled) \<and>
      isConflict (bindings g)"
    then have "bindings g \<noteq> []" by (auto simp: isConflict_def)
    moreover have "g = \<lparr>group_key = group_key g, bindings = bindings g\<rparr>" by simp
    ultimately show "\<exists>k l. l = filter (\<lambda>b. key b = k) (liveBindings bs disabled) \<and> l \<noteq> [] \<and>
      isConflict l \<and> g = \<lparr>group_key = k, bindings = l\<rparr>"
      using a by blast
  qed
  finally show ?thesis .
qed

lemma scan_result:
  "fst (scanConflicts h this) =
     findConflicts (localeCompare h) (collectAllKeybindings (host_platform h) (extensions h))
       (getUserDisabledCommands (keybindingsFile h))"
  by (simp add: scanConflicts_def Let_def)

lemma scan_member:
  assumes "g \<in> set (fst (scanConflicts h this))"
  shows "bindings g = filter (\<lambda>b. key b = group_key g)
           (liveBindings (collectAllKeybindings (host_platform h) (extensions h))
              (getUserDisabledCommands (keybindingsFile h))) \<and>
         isConflict (bindings g)"
  using assms unfolding scan_result by (rule iffD1 [OF findConflicts_member])

text \<open>
  Claim C1. Every conflict group that a scan returns has at least two bindings, all on
  the group's key, from at least two distinct extension identifiers; and when the live
  bindings of a key all come from one extension, no group is returned for that key.
\<close>

theorem scan_groups_span_extensions:
  "(\<forall>g\<in>set (fst (scanConflicts h this)).
      2 \<le> length (bindings g) \<and> 2 \<le> card (extensionId ` set (bindings g)) \<and>
      (\<forall>b\<in>set (bindings g). key b = group_key g)) \<and>
   (\<forall>k e.
      (\<forall>b\<in>set (liveBindings (collectAllKeybindings (host_platform h) (extensions h))
                   (getUserDisabledCommands (keybindingsFile h))).
          key b = k \<longrightarrow> extensionId b = e) \<longrightarrow>
      (\<forall>g\<in>set (fst (scanConflicts h this)). group_key g \<noteq> k))"
proof (intro conjI ballI allI impI)
  fix g
  assume mem: "g \<in> set (fst (scanConflicts h this))"
  note gc = scan_member [OF mem]
  note g = gc [THEN conjunct1] and c = gc [THEN conjunct2]
  show "2 \<le> length (bindings g)" "2 \<le> card (extensionId ` set (bindings g))"
    using c by (simp_all add: isConflict_iff)
  fix b
  assume "b \<in> set (bindings g)"
  then show "key b = group_key g" using g by simp
next
  fix k e g
  let ?live = "liveBindings (collectAllKeybindings (host_platform h) (extensions h))
      (getUserDisabledCommands (keybindingsFile h))"
  assume one: "\<forall>b\<in>set ?live. key b = k \<longrightarrow> extensionId b = e"
    and mem: "g \<in> set (fst (scanConflicts h this))"
  note gc = scan_member [OF mem]
  note g = gc [THEN conjunct1] and c = gc [THEN conjunct2]
  show "group_key g \<noteq> k"
  proof
    assume "group_key g = k"
    then have "extensionId ` set (bindings g) \<subseteq> {e}" using g one by auto
    then have "card (extensionId ` set (bindings g)) \<le> card {e}"
      by (intro card_mono) simp_all
    then show False using c by (simp add: isConflict_iff)
  qed
qed

text \<open>
  In the example the group of \<open>ctrl+k ctrl+s\<close> has one binding of X and one of Y, and the
  two bindings of \<open>ctrl+enter\<close>, both of Z, give no group.
\<close>

theorem scan_groups_span_extensions_witness:
  "saveGroup \<in> set (fst (scanConflicts exampleHost newScanner)) \<and>
   2 \<le> length (bindings saveGroup) \<and> 2 \<le> card (extensionId ` set (bindings saveGroup)) \<and>
   key ` set (bindings saveGroup) = {group_key saveGroup} \<and>
   extensionId ` set (filter (\<lambda>b. key b = ''ctrl+enter'') (liveBindings exampleBindings {})) =
     {''pub.z''} \<and>
   ''ctrl+enter'' \<notin> group_key ` set (fst (scanConflicts exampleHost newScanner))"
proof -
  have mem: "saveGroup \<in> set (fst (scanConflicts exampleHost newScanner))"
    by (simp add: scan_example)
  have live: "liveBindings (collectAllKeybindings (host_platform exampleHost) (extensions exampleHost))
      (getUserDisabledCommands (keybindingsFile exampleHost)) = liveBindings exampleBindings {}"
    by (simp add: exampleHost_def collect_example getUserDisabledCommands_def)
  have ids: "extensionId ` set (filter (\<lambda>b. key b = ''ctrl+enter'') (liveBindings exampleBindings {})) =
      {''pub.z''}"
    by (simp add: liveBindings_def exampleBindings_def binding_def)
  have one: "\<forall>b\<in>set (liveBindings exampleBindings {}). key b = ''ctrl+enter'' \<longrightarrow> extensionId b = ''pub.z''"
    using ids by auto
  note inst = scan_groups_span_extensions [of exampleHost newScanner, unfolded live]
  have g: "2 \<le> length (bindings saveGroup) \<and> 2 \<le> card (extensionId ` set (bindings saveGroup)) \<and>
      (\<forall>b\<in>set (bindings saveGroup). key b = group_key saveGroup)"
    using inst mem by blast
  then have "bindings saveGroup \<noteq> []" by auto
  then have keys: "key ` set (bindings saveGroup) = {group_key saveGroup}"
    using g by (cases "bindings saveGroup") auto
  have "\<forall>g\<in>set (fst (scanConflicts exampleHost newScanner)). group_key g \<noteq> ''ctrl+enter''"
    using inst one by blast
  then have "''ctrl+enter'' \<notin> group_key ` set (fst (scanConflicts exampleHost newScanner))"
    by auto
  then show ?thesis using mem g keys ids by blast
qed

subsection \<open>Disabled commands\<close>

lemma addDisabled_member:
  "c \<in> addDisabled S kb \<longleftrightarrow>
     c \<in> S \<or> uk_command kb = Some (CHR ''-'' # c) \<or>
     (uk_command kb = Some c \<and> c \<noteq> [] \<and> hd c \<noteq> CHR ''-'' \<and>
      (uk_key kb = None \<or> uk_key kb = Some []))"
proof (cases "uk_command kb")
  case None
  then show ?thesis by (simp add: addDisabled_def)
next
  case (Some d)
  show ?thesis
  proof (cases d)
    case Nil
    then show ?thesis using Some by (auto simp: addDisabled_def)
  next
    case (Cons x xs)
    then show ?thesis using Some by (auto simp: addDisabled_def)
  qed
qed

lemma disabled_member:
  "c \<in> foldl addDisabled S es \<longleftrightarrow>
     c \<in> S \<or> (\<exists>kb\<in>set es. uk_command kb = Some (CHR ''-'' # c) \<or>
       (uk_command kb = Some c \<and> c \<noteq> [] \<and> hd c \<noteq> CHR ''-'' \<and>
        (uk_key kb = None \<or> uk_key kb = Some [])))"
proof (induction es arbitrary: S)
  case Nil
  show ?case by simp
next
  case (Cons e es)
  show ?case unfolding foldl_Cons Cons.IH addDisabled_member by auto
qed

lemma findConflicts_prefiltered:
  "findConflicts compare bs disabled = findConflicts compare (liveBindings bs disabled) {}"
proof -
  have "liveBindings (liveBindings bs disabled) {} = liveBindings bs disabled"
    by (simp add: liveBindings_def)
  then have "groupByKey bs disabled = groupByKey (liveBindings bs disabled) {}"
    by (simp add: groupByKey_live)
  then show ?thesis by (simp add: findConflicts_def)
qed

text \<open>
  Claim C2. A command that an entry of the user's list removes (its command is the
  command with the prefix \<open>-\<close>) or disables (the entry names the command and has an
  empty or absent key) has no binding in any group of the scan. The bindings of disabled
  commands are dropped before the grouping: the scan is the scan of the remaining
  bindings, and a key with at most one remaining binding gives no group.
\<close>

theorem disabled_commands_excluded:
  assumes "keybindingsFile h = Entries es" and "e \<in> set es"
    and "uk_command e = Some (CHR ''-'' # c) \<or>
         (uk_command e = Some c \<and> c \<noteq> [] \<and> hd c \<noteq> CHR ''-'' \<and>
          (uk_key e = None \<or> uk_key e = Some []))"
  shows "(\<forall>g\<in>set (fst (scanConflicts h this)). \<forall>b\<in>set (bindings g). command b \<noteq> c) \<and>
         fst (scanConflicts h this) =
           findConflicts (localeCompare h)
             (liveBindings (collectAllKeybindings (host_platform h) (extensions h))
                (getUserDisabledCommands (keybindingsFile h))) {} \<and>
         (\<forall>k. length (filter (\<lambda>b. key b = k)
                  (liveBindings (collectAllKeybindings (host_platform h) (extensions h))
                     (getUserDisabledCommands (keybindingsFile h)))) \<le> 1 \<longrightarrow>
              (\<forall>g\<in>set (fst (scanConflicts h this)). group_key g \<noteq> k))"
proof (intro conjI ballI allI impI)
  let ?D = "getUserDisabledCommands (keybindingsFile h)"
  let ?live = "liveBindings (collectAllKeybindings (host_platform h) (extensions h)) ?D"
  have c: "c \<in> ?D"
    using assms by (auto simp: getUserDisabledCommands_def disabled_member)
  show "fst (scanConflicts h this) = findConflicts (localeCompare h) ?live {}"
    unfolding scan_result by (rule findConflicts_prefiltered)
  {
    fix g b
    assume mem: "g \<in> set (fst (scanConflicts h this))" and b: "b \<in> set (bindings g)"
    have "bindings g = filter (\<lambda>b. key b = group_key g) ?live"
      using scan_member [OF mem] by (rule conjunct1)
    then have "command b \<notin> ?D" using b by (auto simp: liveBindings_def)
    then show "command b \<noteq> c" using c by auto
  }
  {
    fix k g
    assume le: "length (filter (\<lambda>b. key b = k) ?live) \<le> 1"
      and mem: "g \<in> set (fst (scanConflicts h this))"
    note gc = scan_member [OF mem]
    have "2 \<le> length (bindings g)"
      using gc [THEN conjunct2] by (simp add: isConflict_iff)
    then have "2 \<le> length (filter (\<lambda>b. key b = group_key g) ?live)"
      using gc [THEN conjunct1] by simp
    then show "group_key g \<noteq> k" using le by auto
  }
qed

text \<open>
  With the entry \<open>-x.save\<close> in the user's list, the binding of \<open>x.save\<close> is in no group;
  the chord \<open>ctrl+k ctrl+s\<close> keeps the binding of \<open>y.save2\<close> alone and gives no group.
\<close>

theorem disabled_commands_excluded_witness:
  "keybindingsFile overrideHost = Entries [removeSave] \<and> removeSave \<in> set [removeSave] \<and>
   uk_command removeSave = Some (CHR ''-'' # ''x.save'') \<and>
   fst (scanConflicts overrideHost newScanner) = [zoomGroup, resetGroup] \<and>
   ''x.save'' \<notin> command ` set (concat (map bindings (fst (scanConflicts overrideHost newScanner)))) \<and>
   length (filter (\<lambda>b. key b = ''ctrl+k ctrl+s'') (liveBindings exampleBindings {''x.save''})) \<le> 1 \<and>
   ''ctrl+k ctrl+s'' \<notin> group_key ` set (fst (scanConflicts overrideHost newScanner))"
proof -
  have h1: "keybindingsFile overrideHost = Entries [removeSave]"
    by (simp add: overrideHost_def)
  have h2: "removeSave \<in> set [removeSave]" by simp
  have h3: "uk_command removeSave = Some (CHR ''-'' # ''x.save'')"
    by (simp add: removeSave_def)
  have live: "liveBindings (collectAllKeybindings (host_platform overrideHost) (extensions overrideHost))
      (getUserDisabledCommands (keybindingsFile overrideHost)) = liveBindings exampleBindings {''x.save''}"
    by (simp add: overrideHost_def exampleHost_def collect_example disabled_example)
  have one: "length (filter (\<lambda>b. key b = ''ctrl+k ctrl+s'') (liveBindings exampleBindings {''x.save''})) \<le> 1"
    by (simp add: liveBindings_def exampleBindings_def binding_def)
  note inst = disabled_commands_excluded [of overrideHost "[removeSave]" removeSave "''x.save''" newScanner,
      OF h1 h2 disjI1 [OF h3], unfolded live]
  have "\<forall>g\<in>set (fst (scanConflicts overrideHost newScanner)). \<forall>b\<in>set (bindings g). command b \<noteq> ''x.save''"
    using inst by blast
  then have c: "''x.save'' \<notin> command ` set (concat (map bindings (fst (scanConflicts overrideHost newScanner))))"
    by fastforce
  have "\<forall>g\<in>set (fst (scanConflicts overrideHost newScanner)). group_key g \<noteq> ''ctrl+k ctrl+s''"
    using inst one by blast
  then have k: "''ctrl+k ctrl+s'' \<notin> group_key ` set (fst (scanConflicts overrideHost newScanner))"
    by auto
  show ?thesis using h1 h2 h3 one scan_override_example c k by blast
qed

subsection \<open>The order of the groups\<close>

lemma collationCompare_le:
  "collationCompare a b \<le> 0 \<longleftrightarrow> map collationRank a \<le> map collationRank b"
  by (auto simp: collationCompare_def)

lemma collationCompare_total: "collationCompare a b \<le> 0 \<or> collationCompare b a \<le> 0"
  unfolding collationCompare_le by (rule linear)

lemma collationCompare_trans:
  "collationCompare a b \<le> 0 \<Longrightarrow> collationCompare b c \<le> 0 \<Longrightarrow> collationCompare a c \<le> 0"
  unfolding collationCompare_le by (rule order_trans)

lemma sorted_findConflicts:
  assumes "\<And>a b. compare a b \<le> 0 \<or> compare b a \<le> 0"
    and "\<And>a b c. compare a b \<le> 0 \<Longrightarrow> compare b c \<le> 0 \<Longrightarrow> compare a c \<le> 0"
  shows "sorted_wrt (\<lambda>g g'. compare (group_key g) (group_key g') \<le> 0)
           (findConflicts compare bs disabled)"
proof -
  let ?c = "\<lambda>g g'. compare (group_key g) (group_key g')"
  have "sorted_wrt (\<lambda>g g'. ?c g g' \<le> 0) (array_sort ?c xs)" for xs :: "ConflictGroup list"
  proof (rule sorted_array_sort)
    show "?c g g' \<le> 0 \<or> ?c g' g \<le> 0" for g g' by (rule assms(1))
    show "?c g g' \<le> 0 \<Longrightarrow> ?c g' g'' \<le> 0 \<Longrightarrow> ?c g g'' \<le> 0" for g g' g''
      by (rule assms(2))
  qed
  then show ?thesis by (simp add: findConflicts_def Let_def)
qed

text \<open>
  Claim C4, as amended. The groups that a scan returns are in ascending order of their
  keys under the comparison of the host's locale (\<^verbatim>\<open>localeCompare\<close>), for every host whose
  comparison is a total preorder: each group's key compares as less than or equal to the
  key of every later group.
\<close>

theorem scan_sorted_by_localeCompare:
  assumes "\<forall>a b. localeCompare h a b \<le> 0 \<or> localeCompare h b a \<le> 0"
    and "\<forall>a b c. localeCompare h a b \<le> 0 \<and> localeCompare h b c \<le> 0 \<longrightarrow> localeCompare h a c \<le> 0"
  shows "sorted_wrt (\<lambda>g g'. localeCompare h (group_key g) (group_key g') \<le> 0)
           (fst (scanConflicts h this))"
  unfolding scan_result using assms by (intro sorted_findConflicts) blast+

text \<open>The example host: its three groups come back in the order of the collation.\<close>

theorem scan_sorted_by_localeCompare_witness:
  "(\<forall>a b. localeCompare exampleHost a b \<le> 0 \<or> localeCompare exampleHost b a \<le> 0) \<and>
   \<not> (\<exists>a b c. localeCompare exampleHost a b \<le> 0 \<and> localeCompare exampleHost b c \<le> 0 \<and>
          \<not> localeCompare exampleHost a c \<le> 0) \<and>
   fst (scanConflicts exampleHost newScanner) = [zoomGroup, resetGroup, saveGroup] \<and>
   sorted_wrt (\<lambda>g g'. localeCompare exampleHost (group_key g) (group_key g') \<le> 0)
     [zoomGroup, resetGroup, saveGroup]"
proof -
  have lc: "localeCompare exampleHost = collationCompare"
    by (simp add: exampleHost_def)
  have h1: "\<forall>a b. localeCompare exampleHost a b \<le> 0 \<or> localeCompare exampleHost b a \<le> 0"
    unfolding lc using collationCompare_total by blast
  have h2: "\<forall>a b c. localeCompare exampleHost a b \<le> 0 \<and> localeCompare exampleHost b c \<le> 0
      \<longrightarrow> localeCompare exampleHost a c \<le> 0"
    unfolding lc using collationCompare_trans by blast
  have "sorted_wrt (\<lambda>g g'. localeCompare exampleHost (group_key g) (group_key g') \<le> 0)
      (fst (scanConflicts exampleHost newScanner))"
    using h1 h2 by (rule scan_sorted_by_localeCompare)
  then have "sorted_wrt (\<lambda>g g'. localeCompare exampleHost (group_key g) (group_key g') \<le> 0)
      [zoomGroup, resetGroup, saveGroup]"
    by (simp only: scan_example)
  moreover have "\<not> (\<exists>a b c. localeCompare exampleHost a b \<le> 0 \<and> localeCompare exampleHost b c \<le> 0 \<and>
          \<not> localeCompare exampleHost a c \<le> 0)"
    using h2 by blast
  ultimately show ?thesis using h1 scan_example by blast
qed

text \<open>
  Claim C4 as stated fails: under the collation of the example host the group of \<open>ctrl+=\<close>
  comes before the group of \<open>ctrl+0\<close>, while in the lexicographic order of the strings
  \<open>ctrl+0\<close> is the smaller key.
\<close>

theorem scan_not_lexicographic_counterexample:
  "map group_key (fst (scanConflicts exampleHost newScanner)) =
     [''ctrl+='', ''ctrl+0'', ''ctrl+k ctrl+s''] \<and>
   ''ctrl+0'' < ''ctrl+='' \<and>
   \<not> sorted (map group_key (fst (scanConflicts exampleHost newScanner)))"
  by (simp add: scan_example zoomGroup_def resetGroup_def saveGroup_def)

subsection \<open>The bindings kept by the scanner\<close>

text \<open>
  Claim C10. After a scan, \<open>getAllBindings\<close> returns every collected binding: the list
  depends on the extensions and the platform only, not on the user's keybindings.json,
  and every binding of every returned group is in it.
\<close>

theorem scan_keeps_all_bindings:
  "getAllBindings (snd (scanConflicts h this)) =
     collectAllKeybindings (host_platform h) (extensions h) \<and>
   getAllBindings (snd (scanConflicts (h\<lparr>keybindingsFile := file\<rparr>) this)) =
     getAllBindings (snd (scanConflicts h this)) \<and>
   set (concat (map bindings (fst (scanConflicts h this)))) \<subseteq>
     set (getAllBindings (snd (scanConflicts h this)))"
proof (intro conjI)
  show a: "getAllBindings (snd (scanConflicts h this)) =
      collectAllKeybindings (host_platform h) (extensions h)"
    by (simp add: scanConflicts_def getAllBindings_def Let_def)
  show "getAllBindings (snd (scanConflicts (h\<lparr>keybindingsFile := file\<rparr>) this)) =
      getAllBindings (snd (scanConflicts h this))"
    by (simp add: scanConflicts_def getAllBindings_def Let_def)
  show "set (concat (map bindings (fst (scanConflicts h this)))) \<subseteq>
      set (getAllBindings (snd (scanConflicts h this)))"
  proof
    fix b
    assume "b \<in> set (concat (map bindings (fst (scanConflicts h this))))"
    then obtain g where g: "g \<in> set (fst (scanConflicts h this))" and b: "b \<in> set (bindings g)"
      by auto
    have "bindings g = filter (\<lambda>b. key b = group_key g)
        (liveBindings (collectAllKeybindings (host_platform h) (extensions h))
          (getUserDisabledCommands (keybindingsFile h)))"
      using scan_member [OF g] by (rule conjunct1)
    then have "b \<in> set (collectAllKeybindings (host_platform h) (extensions h))"
      using b by (auto simp: liveBindings_def)
    then show "b \<in> set (getAllBindings (snd (scanConflicts h this)))"
      by (simp only: a)
  qed
qed

text \<open>
  With \<open>x.save\<close> removed by the user, the scanner still holds all eight bindings, the one
  of \<open>x.save\<close> and the two of extension Z among them.
\<close>

lemma scan_keeps_disabled_example:
  "getAllBindings (snd (scanConflicts overrideHost newScanner)) = exampleBindings \<and>
   binding ''ctrl+k ctrl+s'' ''x.save'' None ''pub.x'' ''X Tools''
     \<in> set (getAllBindings (snd (scanConflicts overrideHost newScanner))) \<and>
   fst (scanConflicts overrideHost newScanner) = [zoomGroup, resetGroup]"
proof -
  have a: "getAllBindings (snd (scanConflicts overrideHost newScanner)) = exampleBindings"
    by (simp add: scanConflicts_def getAllBindings_def overrideHost_def exampleHost_def
        newScanner_def collect_example Let_def)
  have "binding ''ctrl+k ctrl+s'' ''x.save'' None ''pub.x'' ''X Tools'' \<in> set exampleBindings"
    by (simp add: exampleBindings_def)
  then show ?thesis using a scan_override_example by simp
qed

subsection \<open>Validation and reassignment\<close>

lemmas validate_eval =
  validateKeybinding_def allowedChar_def isLowerLetter_def isDigit_def validModifiers_def
  punctuationKeys_def hasEmptyKey_def trim_def trimEnd_def trimStart_def toLowerCase_def
  lowerChar_def upperChars_def lowerChars_def isWhiteSpace_def split_on_def Let_def

text \<open>
  Claim C9 does not hold of the code. The test for a sub-combo of modifiers alone only
  fires when the sub-combo has one key: \<open>ctrl\<close> is rejected, \<open>ctrl+shift\<close> is accepted.
\<close>

theorem modifiers_only_accepted:
  "validateKeybinding (Some ''ctrl'') currentBinding [] = Some OnlyModifiers \<and>
   validateKeybinding (Some ''ctrl+shift'') currentBinding [] = None \<and>
   validateKeybinding (Some ''ctrl+k ctrl+shift'') currentBinding [] = None"
proof (intro conjI)
  show "validateKeybinding (Some ''ctrl'') currentBinding [] = Some OnlyModifiers"
    by (simp add: validate_eval)
  show "validateKeybinding (Some ''ctrl+shift'') currentBinding [] = None"
    by (simp add: validate_eval)
  show "validateKeybinding (Some ''ctrl+k ctrl+shift'') currentBinding [] = None"
    by (simp add: validate_eval)
qed

text \<open>
  Claim C5 does not hold of the code. The candidate \<open>shift+ctrl+v\<close> normalizes to the key of
  an existing binding of another command, yet the validation accepts it and the
  reassignment writes its two entries: both compare the lower-cased, trimmed candidate,
  not its normal form, with the normalized keys of the bindings.
\<close>

theorem reordered_candidate_accepted:
  "normalizeKey ''shift+ctrl+v'' = key pasteSpecialBinding \<and>
   command pasteSpecialBinding \<noteq> command pasteBinding \<and>
   validateKeybinding (Some ''shift+ctrl+v'') pasteBinding [pasteBinding, pasteSpecialBinding] = None \<and>
   reassignKeybinding pasteBinding ''shift+ctrl+v'' [pasteBinding, pasteSpecialBinding] (Entries []) =
     (Inr (),
      Entries [\<lparr>uk_key = Some ''ctrl+v'', uk_command = Some ''-x.paste'', uk_when = None\<rparr>,
               \<lparr>uk_key = Some ''shift+ctrl+v'', uk_command = Some ''x.paste'', uk_when = None\<rparr>])"
proof (intro conjI)
  show "normalizeKey ''shift+ctrl+v'' = key pasteSpecialBinding"
    by (simp add: pasteSpecialBinding_def binding_def normalize_eval)
  show "command pasteSpecialBinding \<noteq> command pasteBinding"
    by (simp add: pasteSpecialBinding_def pasteBinding_def binding_def)
  show "validateKeybinding (Some ''shift+ctrl+v'') pasteBinding [pasteBinding, pasteSpecialBinding] = None"
    by (simp add: validate_eval pasteSpecialBinding_def pasteBinding_def binding_def)
  show "reassignKeybinding pasteBinding ''shift+ctrl+v'' [pasteBinding, pasteSpecialBinding] (Entries []) =
     (Inr (),
      Entries [\<lparr>uk_key = Some ''ctrl+v'', uk_command = Some ''-x.paste'', uk_when = None\<rparr>,
               \<lparr>uk_key = Some ''shift+ctrl+v'', uk_command = Some ''x.paste'', uk_when = None\<rparr>])"
    by (simp add: reassignKeybinding_def readKeybindingsFile_def writeKeybindingsFile_def whenOf_def
        pasteSpecialBinding_def pasteBinding_def binding_def trim_def trimEnd_def trimStart_def
        toLowerCase_def lowerChar_def upperChars_def lowerChars_def isWhiteSpace_def Let_def)
qed

text \<open>
  What the two checks do guarantee: a candidate whose lower-cased, trimmed text is itself
  the key of a binding of another command is refused by the reassignment, with an error
  that names the extension and the command of such a binding, and no entry is written.
\<close>

lemma find_Some_first: "find P xs = Some x \<Longrightarrow> P x \<and> x \<in> set xs"
  by (induction xs) (auto split: if_splits)

lemma find_ex: "\<exists>x\<in>set xs. P x \<Longrightarrow> \<exists>x. find P xs = Some x"
  by (induction xs) auto

lemma reassign_refused_on_equal_text:
  assumes "b \<in> set bs" "key b = trim (toLowerCase newKey)" "command b \<noteq> command current"
  shows "\<exists>conflict\<in>set bs. command conflict \<noteq> command current \<and>
           key conflict = trim (toLowerCase newKey) \<and>
           reassignKeybinding current newKey bs (Entries es) =
             (Inl (KeyAlreadyAssigned newKey (extensionName conflict) (command conflict)), Entries es)"
proof -
  let ?P = "\<lambda>b. key b = trim (toLowerCase newKey) \<and> command b \<noteq> command current"
  have "\<exists>x\<in>set bs. ?P x" using assms by blast
  then have "\<exists>x. find ?P bs = Some x" by (rule find_ex)
  then obtain conflict where f: "find ?P bs = Some conflict" ..
  then have "?P conflict \<and> conflict \<in> set bs" by (rule find_Some_first)
  moreover have "reassignKeybinding current newKey bs (Entries es) =
      (Inl (KeyAlreadyAssigned newKey (extensionName conflict) (command conflict)), Entries es)"
    using f by (simp add: reassignKeybinding_def readKeybindingsFile_def Let_def)
  ultimately show ?thesis by blast
qed

end
